theory Spec2Isabelle
  imports Main "HOL-Library.Multiset"
begin

section \<open>Data model of the tab history tracker (background.js)\<close>

text \<open>
  The \<^verbatim>\<open>type\<close> argument of an entry is one of the string literals
  \<^verbatim>\<open>'initial'\<close>, \<^verbatim>\<open>'navigation'\<close> and \<^verbatim>\<open>'activation'\<close> that the
  callers pass.
\<close>

datatype NavType = Initial | Navigation | Activation

text \<open>
  The object returned by the content script probe \<^verbatim>\<open>getTabHistoryInfo\<close>. The
  navigation state is opaque; \<open>None\<close> stands for \<^verbatim>\<open>null\<close>, \<^verbatim>\<open>undefined\<close>
  and every other falsy state, which \<^verbatim>\<open>currentState || null\<close> turns into
  \<^verbatim>\<open>null\<close>.
\<close>

record HistoryInfo =
  historyLength :: int
  canGoBack :: bool
  canGoForward :: bool
  currentState :: "string option"

text \<open>
  \<^verbatim>\<open>createHistoryEntry\<close> has the default argument \<^verbatim>\<open>historyInfo = {}\<close>. Every
  field of the empty object is \<^verbatim>\<open>undefined\<close>, which the \<^verbatim>\<open>||\<close> defaults of
  \<^verbatim>\<open>createHistoryEntry\<close> treat exactly as \<open>0\<close>, \<open>False\<close> and \<open>None\<close>.
\<close>

definition emptyInfo :: HistoryInfo where
  "emptyInfo = \<lparr>historyLength = 0, canGoBack = False, canGoForward = False, currentState = None\<rparr>"

record HistoryEntry =
  url :: string
  title :: string
  timestamp :: int
  type :: NavType
  entryHistoryLength :: int
  entryCanGoBack :: bool
  entryCanGoForward :: bool
  state :: "string option"

text \<open>
  The platform's URL constructor is not code of the repository. It is a parameter:
  \<open>parse u = None\<close> when \<^verbatim>\<open>new URL(u)\<close> throws, and \<open>parse u = Some h\<close> when it
  returns an object whose \<^verbatim>\<open>hostname\<close> is \<open>h\<close>.
\<close>

type_synonym url_parser = "string \<Rightarrow> string option"

definition getDomainFromUrl :: "url_parser \<Rightarrow> string \<Rightarrow> string" where
  "getDomainFromUrl parse u = (case parse u of Some hostname \<Rightarrow> hostname | None \<Rightarrow> u)"

text \<open>
  \<^verbatim>\<open>title || ...\<close>: a title is absent when it is \<^verbatim>\<open>undefined\<close> (\<open>None\<close>) or the
  empty string. \<^verbatim>\<open>timestamp || Date.now()\<close> and \<^verbatim>\<open>historyLength || 1\<close> replace
  the falsy number \<open>0\<close>. The value read from \<^verbatim>\<open>Date.now()\<close> is the argument
  \<open>now\<close>.
\<close>

definition createHistoryEntry ::
  "url_parser \<Rightarrow> int \<Rightarrow> string \<Rightarrow> string option \<Rightarrow> NavType \<Rightarrow> int \<Rightarrow> HistoryInfo \<Rightarrow> HistoryEntry" where
  "createHistoryEntry parse now u ttl ty ts info =
     \<lparr>url = u,
      title = (case ttl of None \<Rightarrow> getDomainFromUrl parse u
               | Some t \<Rightarrow> if t = [] then getDomainFromUrl parse u else t),
      timestamp = (if ts = 0 then now else ts),
      type = ty,
      entryHistoryLength = (if historyLength info = 0 then 1 else historyLength info),
      entryCanGoBack = canGoBack info,
      entryCanGoForward = canGoForward info,
      state = currentState info\<rparr>"


section \<open>Tree nodes\<close>

text \<open>
  During a rebuild the nodes are objects that are reached both from their parent's
  \<^verbatim>\<open>children\<close> array and from the local array \<^verbatim>\<open>currentBranch\<close>, and they
  are mutated through the latter. The rebuild therefore runs on an explicit store: a list
  of node objects, the address of an object being its position, and \<^verbatim>\<open>children\<close>
  holding addresses. Every rebuild allocates all its nodes itself, so it starts from an
  empty store.
\<close>

type_synonym addr = nat

record TreeNode =
  entry :: HistoryEntry
  children :: "addr list"
  level :: nat
  isCurrent :: bool

type_synonym store = "TreeNode list"

definition createTreeNode :: "HistoryEntry \<Rightarrow> nat \<Rightarrow> bool \<Rightarrow> TreeNode" where
  "createTreeNode e l c = \<lparr>entry = e, children = [], level = l, isCurrent = c\<rparr>"

text \<open>
  What a reader of \<^verbatim>\<open>tabHistory.tree\<close> sees from a root reference: the object
  graph below it, as a value. The guard on the child addresses only makes the read-back
  total; the stores built by the rebuild satisfy it at every child
  (lemma \<open>buildLoop_inv\<close> below).
\<close>

datatype NodeTree =
  NodeTree (nEntry: HistoryEntry) (nChildren: "NodeTree list") (nLevel: nat) (nIsCurrent: bool)

function readTree :: "store \<Rightarrow> addr \<Rightarrow> NodeTree" where
  "readTree h a =
     NodeTree (entry (h ! a))
       (map (readTree h) (filter (\<lambda>c. a < c \<and> c < length h) (children (h ! a))))
       (level (h ! a)) (isCurrent (h ! a))"
  by pat_completeness auto
termination
  by (relation "measure (\<lambda>(h, a). length h - a)") auto

declare readTree.simps [simp del]

text \<open>All nodes of a tree, in preorder.\<close>

fun nodes :: "NodeTree \<Rightarrow> NodeTree list" where
  "nodes (NodeTree e cs l c) = NodeTree e cs l c # concat (map nodes cs)"

definition currentNodes :: "NodeTree \<Rightarrow> NodeTree list" where
  "currentNodes t = filter nIsCurrent (nodes t)"

text \<open>The addresses of the nodes below a root, in the order of \<open>nodes\<close>.\<close>

function addrs :: "store \<Rightarrow> addr \<Rightarrow> addr list" where
  "addrs h a = a # concat (map (addrs h) (filter (\<lambda>c. a < c \<and> c < length h) (children (h ! a))))"
  by pat_completeness auto
termination
  by (relation "measure (\<lambda>(h, a). length h - a)") auto

declare addrs.simps [simp del]

text \<open>A node is at distance \<open>d\<close> from the root, and so on below it.\<close>

fun levelsFrom :: "nat \<Rightarrow> NodeTree \<Rightarrow> bool" where
  "levelsFrom d (NodeTree e cs l c) = (l = d \<and> list_all (levelsFrom (Suc d)) cs)"

section \<open>Tree Builder: buildTreeFromSessionHistory\<close>

text \<open>\<^verbatim>\<open>Array.prototype.findIndex\<close>, with \<open>None\<close> for \<open>-1\<close>.\<close>

fun findIndex :: "('a \<Rightarrow> bool) \<Rightarrow> 'a list \<Rightarrow> nat option" where
  "findIndex P [] = None"
| "findIndex P (x # xs) = (if P x then Some 0 else map_option Suc (findIndex P xs))"

text \<open>
  \<^verbatim>\<open>currentBranch.forEach((node, idx) => { node.isCurrent = (idx === existingIndex && isCurrent); })\<close>,
  from position \<open>idx\<close> on.
\<close>

fun updateCurrentFlags :: "store \<Rightarrow> addr list \<Rightarrow> nat \<Rightarrow> nat \<Rightarrow> bool \<Rightarrow> store" where
  "updateCurrentFlags h [] idx existingIndex isCur = h"
| "updateCurrentFlags h (a # as) idx existingIndex isCur =
     updateCurrentFlags (h[a := (h ! a)\<lparr>isCurrent := (idx = existingIndex \<and> isCur)\<rparr>])
       as (Suc idx) existingIndex isCur"

text \<open>The body of the \<^verbatim>\<open>for\<close> loop at log position \<open>i\<close>.\<close>

definition buildStep :: "int \<Rightarrow> nat \<Rightarrow> HistoryEntry \<Rightarrow> store \<times> addr list \<Rightarrow> store \<times> addr list" where
  "buildStep ci i e = (\<lambda>(h, currentBranch).
     let isCur = (int i = ci) in
     case findIndex (\<lambda>a. url (entry (h ! a)) = url e) currentBranch of
       Some existingIndex \<Rightarrow>
         let branch' = take (existingIndex + 1) currentBranch
         in (updateCurrentFlags h branch' 0 existingIndex isCur, branch')
     | None \<Rightarrow>
         let parentNode = last currentBranch;
             newNode = length h;
             h1 = h @ [createTreeNode e (length currentBranch) isCur];
             h2 = h1[parentNode := (h1 ! parentNode)\<lparr>children := children (h1 ! parentNode) @ [newNode]\<rparr>]
         in (h2, currentBranch @ [newNode]))"

function buildLoop :: "HistoryEntry list \<Rightarrow> int \<Rightarrow> nat \<Rightarrow> store \<times> addr list \<Rightarrow> store \<times> addr list" where
  "buildLoop es ci i s =
     (if i < length es then buildLoop es ci (Suc i) (buildStep ci i (es ! i) s) else s)"
  by pat_completeness auto
termination
  by (relation "measure (\<lambda>(es, ci, i, s). length es - i)") auto

declare buildLoop.simps [simp del]

text \<open>The rebuild of a non-empty log: the tree below the root after the loop.\<close>

definition buildTree :: "HistoryEntry list \<Rightarrow> int \<Rightarrow> NodeTree" where
  "buildTree es ci =
     (let root = createTreeNode (es ! 0) 0 (ci = 0);
          (h, currentBranch) = buildLoop es ci 1 ([root], [0])
      in readTree h 0)"

section \<open>Tracker state\<close>

text \<open>
  A value of the map \<^verbatim>\<open>tabHistories\<close> (and, with \<^verbatim>\<open>closedAt\<close> set, of
  \<^verbatim>\<open>closedTabHistories\<close>). A finished tree is replaced as a whole by the next
  rebuild and never mutated, so the record holds it as a value.
\<close>

record TabHistory =
  sessionHistory :: "HistoryEntry list"
  currentIndex :: int
  tree :: NodeTree
  lastUpdated :: int
  isClosed :: bool
  closedAt :: "int option"

record Tracker =
  tabHistories :: "nat \<rightharpoonup> TabHistory"
  tabCreationTimes :: "nat \<rightharpoonup> int"
  closedTabHistories :: "nat \<rightharpoonup> TabHistory"

definition buildTreeFromSessionHistory :: "Tracker \<Rightarrow> nat \<Rightarrow> Tracker" where
  "buildTreeFromSessionHistory T tabId =
     (case tabHistories T tabId of
        None \<Rightarrow> T
      | Some tabHistory \<Rightarrow>
          if length (sessionHistory tabHistory) = 0 then T
          else T\<lparr>tabHistories := (tabHistories T)(tabId \<mapsto>
                 tabHistory\<lparr>tree := buildTree (sessionHistory tabHistory) (currentIndex tabHistory)\<rparr>)\<rparr>)"


section \<open>Session Tracker\<close>

text \<open>
  Reading an array out of range gives \<^verbatim>\<open>undefined\<close> (\<open>None\<close>); reading a
  property of \<^verbatim>\<open>undefined\<close> throws a \<^verbatim>\<open>TypeError\<close>.
\<close>

datatype error = TypeError

definition at_index :: "'a list \<Rightarrow> int \<Rightarrow> 'a option" where
  "at_index xs i = (if 0 \<le> i \<and> i < int (length xs) then Some (xs ! nat i) else None)"

text \<open>\<^verbatim>\<open>xs.slice(0, end)\<close>: a negative \<open>end\<close> counts from the end of the array.\<close>

definition slice0 :: "'a list \<Rightarrow> int \<Rightarrow> 'a list" where
  "slice0 xs end = take (nat (if end < 0 then int (length xs) + end else end)) xs"

text \<open>
  The two detections. When the test succeeds, the \<^verbatim>\<open>console.log\<close> inside
  \<^verbatim>\<open>if (isBack)\<close> and \<^verbatim>\<open>if (isForward)\<close> reads the URL of the entry at
  \<^verbatim>\<open>currentIndex\<close>, which throws when the index is out of range.
\<close>

definition detectBackNavigation :: "Tracker \<Rightarrow> nat \<Rightarrow> string \<Rightarrow> HistoryInfo \<Rightarrow> error + bool" where
  "detectBackNavigation T tabId newUrl historyInfo =
     (case tabHistories T tabId of
        None \<Rightarrow> Inr False
      | Some tabHistory \<Rightarrow>
          if length (sessionHistory tabHistory) < 2 then Inr False
          else if currentIndex tabHistory > 0 then
            (case at_index (sessionHistory tabHistory) (currentIndex tabHistory - 1) of
               None \<Rightarrow> Inl TypeError
             | Some previousEntry \<Rightarrow>
                 if url previousEntry = newUrl \<and> canGoBack historyInfo then
                   (case at_index (sessionHistory tabHistory) (currentIndex tabHistory) of
                      None \<Rightarrow> Inl TypeError
                    | Some currentEntry \<Rightarrow> Inr True)
                 else Inr False)
          else Inr False)"

definition detectForwardNavigation :: "Tracker \<Rightarrow> nat \<Rightarrow> string \<Rightarrow> HistoryInfo \<Rightarrow> error + bool" where
  "detectForwardNavigation T tabId newUrl historyInfo =
     (case tabHistories T tabId of
        None \<Rightarrow> Inr False
      | Some tabHistory \<Rightarrow>
          if currentIndex tabHistory \<ge> int (length (sessionHistory tabHistory)) - 1 then Inr False
          else if currentIndex tabHistory < int (length (sessionHistory tabHistory)) - 1 then
            (case at_index (sessionHistory tabHistory) (currentIndex tabHistory + 1) of
               None \<Rightarrow> Inl TypeError
             | Some nextEntry \<Rightarrow>
                 if url nextEntry = newUrl \<and> canGoForward historyInfo then
                   (case at_index (sessionHistory tabHistory) (currentIndex tabHistory) of
                      None \<Rightarrow> Inl TypeError
                    | Some currentEntry \<Rightarrow> Inr True)
                 else Inr False)
          else Inr False)"

definition handleBackNavigation :: "Tracker \<Rightarrow> nat \<Rightarrow> string \<Rightarrow> string option \<Rightarrow> Tracker" where
  "handleBackNavigation T tabId u ttl =
     (case tabHistories T tabId of
        None \<Rightarrow> T
      | Some tabHistory \<Rightarrow>
          T\<lparr>tabHistories := (tabHistories T)(tabId \<mapsto>
            tabHistory\<lparr>currentIndex := max 0 (currentIndex tabHistory - 1)\<rparr>)\<rparr>)"

definition handleForwardNavigation :: "Tracker \<Rightarrow> nat \<Rightarrow> string \<Rightarrow> string option \<Rightarrow> Tracker" where
  "handleForwardNavigation T tabId u ttl =
     (case tabHistories T tabId of
        None \<Rightarrow> T
      | Some tabHistory \<Rightarrow>
          T\<lparr>tabHistories := (tabHistories T)(tabId \<mapsto>
            tabHistory\<lparr>currentIndex :=
              min (int (length (sessionHistory tabHistory)) - 1) (currentIndex tabHistory + 1)\<rparr>)\<rparr>)"

text \<open>The same-URL test at the head of \<^verbatim>\<open>handleNewNavigation\<close>.\<close>

definition isRefresh :: "TabHistory \<Rightarrow> string \<Rightarrow> bool" where
  "isRefresh tabHistory u =
     (case at_index (sessionHistory tabHistory) (currentIndex tabHistory) of
        None \<Rightarrow> False
      | Some currentEntry \<Rightarrow> url currentEntry = u)"

definition handleNewNavigation ::
  "url_parser \<Rightarrow> int \<Rightarrow> Tracker \<Rightarrow> nat \<Rightarrow> string \<Rightarrow> string option \<Rightarrow> NavType \<Rightarrow> HistoryInfo \<Rightarrow> Tracker" where
  "handleNewNavigation parse now T tabId u ttl ty historyInfo =
     (case tabHistories T tabId of
        None \<Rightarrow> T
      | Some tabHistory \<Rightarrow>
          if isRefresh tabHistory u then T
          else
            let sh = sessionHistory tabHistory;
                truncated =
                  (if currentIndex tabHistory < int (length sh) - 1
                   then slice0 sh (currentIndex tabHistory + 1) else sh);
                newEntry = createHistoryEntry parse now u ttl ty now historyInfo;
                pushed = truncated @ [newEntry]
            in T\<lparr>tabHistories := (tabHistories T)(tabId \<mapsto>
                 tabHistory\<lparr>sessionHistory := pushed, currentIndex := int (length pushed) - 1\<rparr>)\<rparr>)"

text \<open>
  \<^verbatim>\<open>updateTabHistory\<close>. The reads of \<^verbatim>\<open>Date.now()\<close> during one update are the
  one value \<open>now\<close>; writing the snapshot to storage is outside the model. The first
  part creates the record of an unknown tab.
\<close>

definition ensureTabHistory ::
  "url_parser \<Rightarrow> int \<Rightarrow> Tracker \<Rightarrow> nat \<Rightarrow> string \<Rightarrow> string option \<Rightarrow> Tracker" where
  "ensureTabHistory parse now T tabId u ttl =
     (case tabHistories T tabId of
        Some tabHistory \<Rightarrow> T
      | None \<Rightarrow>
          let creationTime =
                (case tabCreationTimes T tabId of
                   None \<Rightarrow> now
                 | Some t \<Rightarrow> if t = 0 then now else t);
              initialEntry = createHistoryEntry parse now u ttl Initial creationTime emptyInfo
          in T\<lparr>tabHistories := (tabHistories T)(tabId \<mapsto>
               \<lparr>sessionHistory = [initialEntry], currentIndex = 0,
                tree = readTree [createTreeNode initialEntry 0 True] 0,
                lastUpdated = now, isClosed = False, closedAt = None\<rparr>)\<rparr>)"

definition touchLastUpdated :: "int \<Rightarrow> Tracker \<Rightarrow> nat \<Rightarrow> Tracker" where
  "touchLastUpdated now T tabId =
     (case tabHistories T tabId of
        None \<Rightarrow> T
      | Some tabHistory \<Rightarrow>
          T\<lparr>tabHistories := (tabHistories T)(tabId \<mapsto> tabHistory\<lparr>lastUpdated := now\<rparr>)\<rparr>)"

definition updateTabHistory ::
  "url_parser \<Rightarrow> int \<Rightarrow> Tracker \<Rightarrow> nat \<Rightarrow> string \<Rightarrow> string option \<Rightarrow> NavType \<Rightarrow> HistoryInfo
     \<Rightarrow> error + Tracker" where
  "updateTabHistory parse now T tabId u ttl ty historyInfo =
     (let T1 = ensureTabHistory parse now T tabId u ttl in
      case detectBackNavigation T1 tabId u historyInfo of
        Inl e \<Rightarrow> Inl e
      | Inr isBackNavigation \<Rightarrow>
          (case detectForwardNavigation T1 tabId u historyInfo of
             Inl e \<Rightarrow> Inl e
           | Inr isForwardNavigation \<Rightarrow>
               let T2 = (if isBackNavigation then handleBackNavigation T1 tabId u ttl
                         else if isForwardNavigation then handleForwardNavigation T1 tabId u ttl
                         else handleNewNavigation parse now T1 tabId u ttl ty historyInfo)
               in Inr (buildTreeFromSessionHistory (touchLastUpdated now T2 tabId) tabId)))"

text \<open>
  The events are delivered one at a time. An update that throws has not written anything
  yet (both detections run before the first handler), so the tracker stays as it was.
\<close>

record Update =
  updTabId :: nat
  updUrl :: string
  updTitle :: "string option"
  updType :: NavType
  updInfo :: HistoryInfo
  updNow :: int

definition applyUpdate :: "url_parser \<Rightarrow> Tracker \<Rightarrow> Update \<Rightarrow> Tracker" where
  "applyUpdate parse T upd =
     (case updateTabHistory parse (updNow upd) T (updTabId upd) (updUrl upd) (updTitle upd)
             (updType upd) (updInfo upd) of
        Inl e \<Rightarrow> T
      | Inr T' \<Rightarrow> T')"

fun applyUpdates :: "url_parser \<Rightarrow> Tracker \<Rightarrow> Update list \<Rightarrow> Tracker" where
  "applyUpdates parse T [] = T"
| "applyUpdates parse T (upd # upds) = applyUpdates parse (applyUpdate parse T upd) upds"

section \<open>Tab closure and the command surface\<close>

definition handleTabClose :: "int \<Rightarrow> Tracker \<Rightarrow> nat \<Rightarrow> Tracker" where
  "handleTabClose now T tabId =
     (case tabHistories T tabId of
        Some tabHistory \<Rightarrow>
          T\<lparr>closedTabHistories := (closedTabHistories T)(tabId \<mapsto>
               tabHistory\<lparr>closedAt := Some now, isClosed := True\<rparr>),
            tabHistories := (tabHistories T)(tabId := None),
            tabCreationTimes := (tabCreationTimes T)(tabId := None)\<rparr>
      | None \<Rightarrow> T)"

text \<open>
  The effect of \<^verbatim>\<open>handleMessage\<close> on the tracker, by \<^verbatim>\<open>request.action\<close>; the
  responses are not part of the model. \<^verbatim>\<open>refreshTabHistory\<close> carries
  \<^verbatim>\<open>request.tabId\<close>, which is tested for truthiness.
\<close>

datatype Request =
  GetAllTabTrees | ClearHistory | ClearClosedTabs | GetStatus
  | RefreshTabHistory nat | DebugInfo | UnknownAction

fun handleMessage :: "Tracker \<Rightarrow> Request \<Rightarrow> Tracker" where
  "handleMessage T ClearHistory =
     T\<lparr>tabHistories := Map.empty, closedTabHistories := Map.empty, tabCreationTimes := Map.empty\<rparr>"
| "handleMessage T ClearClosedTabs = T\<lparr>closedTabHistories := Map.empty\<rparr>"
| "handleMessage T (RefreshTabHistory tabId) =
     (if tabId \<noteq> 0 then buildTreeFromSessionHistory T tabId else T)"
| "handleMessage T _ = T"


section \<open>Invariants and sample data used in the statements\<close>

text \<open>The SessionLog invariant: the log is not empty and the index points into it.\<close>

definition wellFormed :: "TabHistory \<Rightarrow> bool" where
  "wellFormed tabHistory =
     (sessionHistory tabHistory \<noteq> [] \<and> 0 \<le> currentIndex tabHistory
      \<and> currentIndex tabHistory < int (length (sessionHistory tabHistory)))"

text \<open>No two neighbours in the log have the same URL.\<close>

definition noAdjacentRepeat :: "TabHistory \<Rightarrow> bool" where
  "noAdjacentRepeat tabHistory = distinct_adj (map url (sessionHistory tabHistory))"

text \<open>A log as it is right after initialisation: one entry, index \<open>0\<close>.\<close>

definition initialized :: "TabHistory \<Rightarrow> bool" where
  "initialized tabHistory =
     (length (sessionHistory tabHistory) = 1 \<and> currentIndex tabHistory = 0)"

text \<open>
  The URL constructor tabulated on the URLs that the examples use: the hostname of
  \<^verbatim>\<open>https://example.com/docs\<close> is \<^verbatim>\<open>example.com\<close>, the hostnames of
  \<^verbatim>\<open>http://a/\<close> to \<^verbatim>\<open>http://d/\<close> are \<^verbatim>\<open>a\<close> to \<^verbatim>\<open>d\<close>, and
  \<^verbatim>\<open>new URL('http://')\<close> throws (a special scheme with an empty host). The table
  is not consulted at any other input.
\<close>

definition sampleUrls :: url_parser where
  "sampleUrls =
     [''https://example.com/docs'' \<mapsto> ''example.com'',
      ''http://a/'' \<mapsto> ''a'', ''http://b/'' \<mapsto> ''b'',
      ''http://c/'' \<mapsto> ''c'', ''http://d/'' \<mapsto> ''d'']"

definition page :: "string \<Rightarrow> HistoryEntry" where
  "page u = \<lparr>url = u, title = u, timestamp = 1, type = Navigation, entryHistoryLength = 1,
             entryCanGoBack = False, entryCanGoForward = False, state = None\<rparr>"

definition sampleLog :: "HistoryEntry list \<Rightarrow> int \<Rightarrow> TabHistory" where
  "sampleLog es ci =
     \<lparr>sessionHistory = es, currentIndex = ci, tree = buildTree es ci, lastUpdated = 1,
      isClosed = False, closedAt = None\<rparr>"

definition emptyTracker :: Tracker where
  "emptyTracker = \<lparr>tabHistories = Map.empty, tabCreationTimes = Map.empty,
                    closedTabHistories = Map.empty\<rparr>"

definition trackerWith :: "nat \<Rightarrow> TabHistory \<Rightarrow> Tracker" where
  "trackerWith tabId tabHistory = emptyTracker\<lparr>tabHistories := [tabId \<mapsto> tabHistory]\<rparr>"

text \<open>What the probe reports in a tab with more than one history item.\<close>

definition probed :: HistoryInfo where
  "probed = \<lparr>historyLength = 3, canGoBack = True, canGoForward = True, currentState = None\<rparr>"

definition visit :: "string \<Rightarrow> Update" where
  "visit u = \<lparr>updTabId = 1, updUrl = u, updTitle = Some u, updType = Navigation,
              updInfo = probed, updNow = 2\<rparr>"


text \<open>The URLs of a tab's log and its index, for the examples.\<close>

definition logOf :: "Tracker \<Rightarrow> nat \<Rightarrow> (string list \<times> int) option" where
  "logOf T tabId =
     map_option (\<lambda>tabHistory. (map url (sessionHistory tabHistory), currentIndex tabHistory))
       (tabHistories T tabId)"

text \<open>The same for the result of an update; \<open>None\<close> when the update threw.\<close>

definition resultLog :: "error + Tracker \<Rightarrow> nat \<Rightarrow> (string list \<times> int) option" where
  "resultLog r tabId = (case r of Inl e \<Rightarrow> None | Inr T \<Rightarrow> logOf T tabId)"

text \<open>The entries of a tab's log and its index after an update.\<close>

definition resultEntries :: "error + Tracker \<Rightarrow> nat \<Rightarrow> (HistoryEntry list \<times> int) option" where
  "resultEntries r tabId =
     (case r of
        Inl e \<Rightarrow> None
      | Inr T \<Rightarrow>
          map_option (\<lambda>tabHistory. (sessionHistory tabHistory, currentIndex tabHistory))
            (tabHistories T tabId))"

text \<open>The URLs of the nodes of a tab's tree that carry the current flag.\<close>

definition currentUrls :: "Tracker \<Rightarrow> nat \<Rightarrow> string list option" where
  "currentUrls T tabId =
     map_option (\<lambda>tabHistory. map (\<lambda>n. url (nEntry n)) (currentNodes (tree tabHistory)))
       (tabHistories T tabId)"

text \<open>
  The loop invariant of the rebuild, on the store and \<^verbatim>\<open>currentBranch\<close>: the branch
  starts at the root (address \<open>0\<close>), the node at branch position \<open>j\<close> has level \<open>j\<close>,
  and every child was allocated after its parent and has the parent's level plus one.
\<close>

definition storeInv :: "store \<times> addr list \<Rightarrow> bool" where
  "storeInv = (\<lambda>(h, currentBranch).
     currentBranch \<noteq> [] \<and> currentBranch ! 0 = 0
     \<and> (\<forall>j < length currentBranch.
           currentBranch ! j < length h \<and> level (h ! (currentBranch ! j)) = j)
     \<and> (\<forall>a < length h. \<forall>c \<in> set (children (h ! a)).
           a < c \<and> c < length h \<and> level (h ! c) = Suc (level (h ! a))))"

text \<open>
  The invariant of the current flags before the step for log position \<open>i\<close>: every
  allocated node is in the tree below the root exactly once; no node is flagged as long
  as position \<^verbatim>\<open>currentIndex\<close> is still to come; at most one node is flagged; and
  right after the step for \<^verbatim>\<open>currentIndex\<close> the flagged node is the end of the branch
  and carries the URL of the current entry.
\<close>

definition flagInv :: "HistoryEntry list \<Rightarrow> int \<Rightarrow> nat \<Rightarrow> store \<times> addr list \<Rightarrow> bool" where
  "flagInv es ci i = (\<lambda>(h, currentBranch).
     storeInv (h, currentBranch)
     \<and> mset (addrs h 0) = mset [0..<length h]
     \<and> (int i \<le> ci \<longrightarrow> (\<forall>a < length h. \<not> isCurrent (h ! a)))
     \<and> (\<forall>a < length h. \<forall>b < length h. isCurrent (h ! a) \<and> isCurrent (h ! b) \<longrightarrow> a = b)
     \<and> (int i = ci + 1 \<longrightarrow>
          isCurrent (h ! last currentBranch)
          \<and> url (entry (h ! last currentBranch)) = url (es ! nat ci)))"

text \<open>
  The repository holds a second, earlier copy of the tracker class (the unnamed source
  file \<^verbatim>\<open>part_000\<close>). It has no map \<^verbatim>\<open>closedTabHistories\<close> and no command
  \<^verbatim>\<open>clearClosedTabs\<close>; its \<^verbatim>\<open>handleTabClose\<close> deletes the record of the tab.
\<close>

definition handleTabClose_earlier :: "Tracker \<Rightarrow> nat \<Rightarrow> Tracker" where
  "handleTabClose_earlier T tabId =
     T\<lparr>tabHistories := (tabHistories T)(tabId := None),
       tabCreationTimes := (tabCreationTimes T)(tabId := None)\<rparr>"

section \<open>History entries\<close>

text \<open>
  C8, as stated: an entry created with an absent title stores the host of its URL. This
  fails where the URL constructor throws: \<^verbatim>\<open>getDomainFromUrl\<close> catches the exception
  and returns the URL string itself.
\<close>

theorem C8_title_of_unparsable_url:
  "Some (title (createHistoryEntry sampleUrls 5 ''http://'' None Navigation 5 emptyInfo))
     \<noteq> sampleUrls ''http://''"
  by (simp add: createHistoryEntry_def getDomainFromUrl_def sampleUrls_def)

text \<open>
  C8, amended: an entry created with an absent title (\<^verbatim>\<open>undefined\<close> or the empty
  string) stores the hostname of its URL when the URL parses, and the URL string itself
  when it does not.
\<close>

theorem C8_title_fallback:
  "ttl = None \<or> ttl = Some [] \<Longrightarrow>
   title (createHistoryEntry parse now u ttl ty ts info) =
     (case parse u of Some hostname \<Rightarrow> hostname | None \<Rightarrow> u)"
  by (auto simp: createHistoryEntry_def getDomainFromUrl_def)

theorem C8_title_fallback_witness:
  "(Some [] = (None :: string option) \<or> Some [] = Some ([] :: string)) \<and>
   title (createHistoryEntry sampleUrls 5 ''https://example.com/docs'' (Some []) Navigation 5 emptyInfo)
     = ''example.com''"
  using C8_title_fallback [of "Some []" sampleUrls 5 "''https://example.com/docs''" Navigation 5 emptyInfo]
  by (simp add: sampleUrls_def)


section \<open>Session Tracker: classification of an update\<close>

lemma at_index_valid: "0 \<le> i \<Longrightarrow> i < int (length xs) \<Longrightarrow> at_index xs i = Some (xs ! nat i)"
  by (simp add: at_index_def)

lemma ensure_other: "k \<noteq> tabId \<Longrightarrow> tabHistories (ensureTabHistory parse now T tabId u ttl) k = tabHistories T k"
  by (simp add: ensureTabHistory_def Let_def split: option.splits)

lemma back_other: "k \<noteq> tabId \<Longrightarrow> tabHistories (handleBackNavigation T tabId u ttl) k = tabHistories T k"
  by (simp add: handleBackNavigation_def split: option.splits)

lemma forward_other: "k \<noteq> tabId \<Longrightarrow> tabHistories (handleForwardNavigation T tabId u ttl) k = tabHistories T k"
  by (simp add: handleForwardNavigation_def split: option.splits)

lemma new_other: "k \<noteq> tabId \<Longrightarrow> tabHistories (handleNewNavigation parse now T tabId u ttl ty info) k = tabHistories T k"
  by (simp add: handleNewNavigation_def Let_def split: option.splits)

lemma touch_other: "k \<noteq> tabId \<Longrightarrow> tabHistories (touchLastUpdated now T tabId) k = tabHistories T k"
  by (simp add: touchLastUpdated_def split: option.splits)

lemma build_other: "k \<noteq> tabId \<Longrightarrow> tabHistories (buildTreeFromSessionHistory T tabId) k = tabHistories T k"
  by (simp add: buildTreeFromSessionHistory_def split: option.splits)

lemma update_other:
  assumes "updateTabHistory parse now T tabId u ttl ty info = Inr T'" "k \<noteq> tabId"
  shows "tabHistories T' k = tabHistories T k"
  using assms
  by (auto simp: updateTabHistory_def Let_def ensure_other back_other forward_other new_other
      touch_other build_other split: sum.splits if_splits)

lemma applyUpdate_other: "k \<noteq> updTabId upd \<Longrightarrow> tabHistories (applyUpdate parse T upd) k = tabHistories T k"
  by (auto simp: applyUpdate_def update_other split: sum.splits)

lemma ensure_tracked: "tabHistories T tabId = Some th \<Longrightarrow> ensureTabHistory parse now T tabId u ttl = T"
  by (simp add: ensureTabHistory_def)

lemma distinct_adj_take: "distinct_adj xs \<Longrightarrow> distinct_adj (take n xs)"
  by (metis append_take_drop_id distinct_adj_appendD1)

text \<open>
  An update whose URL is that of the current entry, when neither the Back test nor the
  Forward test matches: it reaches the same-URL test of \<^verbatim>\<open>handleNewNavigation\<close>.
\<close>

lemma refresh_step:
  assumes th: "tabHistories T tabId = Some th"
    and wf: "wellFormed th"
    and u: "u = url (sessionHistory th ! nat (currentIndex th))"
    and nb: "\<not> (currentIndex th > 0 \<and> url (sessionHistory th ! nat (currentIndex th - 1)) = u
                \<and> canGoBack info)"
    and nf: "\<not> (currentIndex th < int (length (sessionHistory th)) - 1
                \<and> url (sessionHistory th ! nat (currentIndex th + 1)) = u \<and> canGoForward info)"
  shows "updateTabHistory parse now T tabId u ttl ty info
         = Inr (T\<lparr>tabHistories := (tabHistories T)(tabId \<mapsto>
                  th\<lparr>lastUpdated := now, tree := buildTree (sessionHistory th) (currentIndex th)\<rparr>)\<rparr>)"
proof -
  have e: "ensureTabHistory parse now T tabId u ttl = T"
    using th by (rule ensure_tracked)
  have b: "detectBackNavigation T tabId u info = Inr False"
    using th wf nb by (auto simp: detectBackNavigation_def wellFormed_def at_index_def)
  have f: "detectForwardNavigation T tabId u info = Inr False"
    using th wf nf by (auto simp: detectForwardNavigation_def wellFormed_def at_index_def)
  have r: "isRefresh th u"
    using wf u by (simp add: isRefresh_def wellFormed_def at_index_def)
  have n: "handleNewNavigation parse now T tabId u ttl ty info = T"
    using th r by (simp add: handleNewNavigation_def)
  show ?thesis
    using th wf by (simp add: updateTabHistory_def e b f n touchLastUpdated_def
        buildTreeFromSessionHistory_def wellFormed_def)
qed

lemma back_step:
  assumes th: "tabHistories T tabId = Some th"
    and wf: "wellFormed th"
    and p: "currentIndex th > 0" "url (sessionHistory th ! nat (currentIndex th - 1)) = u" "canGoBack info"
  shows "updateTabHistory parse now T tabId u ttl ty info
         = Inr (T\<lparr>tabHistories := (tabHistories T)(tabId \<mapsto>
                  th\<lparr>currentIndex := currentIndex th - 1, lastUpdated := now,
                     tree := buildTree (sessionHistory th) (currentIndex th - 1)\<rparr>)\<rparr>)"
proof -
  have e: "ensureTabHistory parse now T tabId u ttl = T"
    using th by (simp add: ensureTabHistory_def)
  have b: "detectBackNavigation T tabId u info = Inr True"
    using th wf p by (auto simp: detectBackNavigation_def wellFormed_def at_index_def)
  have f: "\<exists>x. detectForwardNavigation T tabId u info = Inr x"
    using th wf by (auto simp: detectForwardNavigation_def wellFormed_def at_index_def)
  then obtain x where f': "detectForwardNavigation T tabId u info = Inr x" ..
  show ?thesis
    using th wf p by (simp add: updateTabHistory_def e b f' handleBackNavigation_def touchLastUpdated_def
        buildTreeFromSessionHistory_def wellFormed_def)
qed

lemma forward_step:
  assumes th: "tabHistories T tabId = Some th"
    and wf: "wellFormed th"
    and nb: "\<not> (currentIndex th > 0 \<and> url (sessionHistory th ! nat (currentIndex th - 1)) = u \<and> canGoBack info)"
    and p: "currentIndex th < int (length (sessionHistory th)) - 1"
       "url (sessionHistory th ! nat (currentIndex th + 1)) = u" "canGoForward info"
  shows "updateTabHistory parse now T tabId u ttl ty info
         = Inr (T\<lparr>tabHistories := (tabHistories T)(tabId \<mapsto>
                  th\<lparr>currentIndex := currentIndex th + 1, lastUpdated := now,
                     tree := buildTree (sessionHistory th) (currentIndex th + 1)\<rparr>)\<rparr>)"
proof -
  have e: "ensureTabHistory parse now T tabId u ttl = T"
    using th by (simp add: ensureTabHistory_def)
  have b: "detectBackNavigation T tabId u info = Inr False"
    using th wf nb by (auto simp: detectBackNavigation_def wellFormed_def at_index_def)
  have f: "detectForwardNavigation T tabId u info = Inr True"
    using th wf p by (auto simp: detectForwardNavigation_def wellFormed_def at_index_def)
  show ?thesis
    using th wf p by (simp add: updateTabHistory_def e b f handleForwardNavigation_def touchLastUpdated_def
        buildTreeFromSessionHistory_def wellFormed_def)
qed

text \<open>The log after an update of a tracked tab with a well-formed log.\<close>

lemma update_tracked:
  assumes th: "tabHistories T tabId = Some th" and wf: "wellFormed th"
  shows "\<exists>T' th'. updateTabHistory parse now T tabId u ttl ty info = Inr T'
           \<and> tabHistories T' tabId = Some th'
           \<and> (sessionHistory th' = sessionHistory th \<and> 0 \<le> currentIndex th'
                \<and> currentIndex th' < int (length (sessionHistory th))
              \<or> url (sessionHistory th ! nat (currentIndex th)) \<noteq> u
                \<and> sessionHistory th' = take (nat (currentIndex th) + 1) (sessionHistory th)
                      @ [createHistoryEntry parse now u ttl ty now info]
                \<and> currentIndex th' = int (length (sessionHistory th')) - 1)"
proof -
  let ?sh = "sessionHistory th" and ?ci = "currentIndex th"
  have e: "ensureTabHistory parse now T tabId u ttl = T"
    using th by (rule ensure_tracked)
  from wf have ne: "?sh \<noteq> []" and lo: "0 \<le> ?ci" and hi: "?ci < int (length ?sh)"
    by (simp_all add: wellFormed_def)
  have "\<exists>x. detectBackNavigation T tabId u info = Inr x"
    using th lo hi by (auto simp: detectBackNavigation_def at_index_def)
  then obtain x where b: "detectBackNavigation T tabId u info = Inr x" ..
  have "\<exists>y. detectForwardNavigation T tabId u info = Inr y"
    using th lo hi by (auto simp: detectForwardNavigation_def at_index_def)
  then obtain y where f: "detectForwardNavigation T tabId u info = Inr y" ..
  have r: "isRefresh th u \<longleftrightarrow> url (?sh ! nat ?ci) = u"
    using lo hi by (simp add: isRefresh_def at_index_def)
  have tr: "(if ?ci < int (length ?sh) - 1 then slice0 ?sh (?ci + 1) else ?sh) = take (nat ?ci + 1) ?sh"
    using lo hi by (auto simp: slice0_def nat_add_distrib)
  consider (goBack) "x" | (fwd) "\<not> x" "y" | (refresh) "\<not> x" "\<not> y" "isRefresh th u"
    | (new) "\<not> x" "\<not> y" "\<not> isRefresh th u" by blast
  then show ?thesis
  proof cases
    case goBack
    then show ?thesis
      using th ne lo hi
      by (simp add: updateTabHistory_def e b f handleBackNavigation_def touchLastUpdated_def
          buildTreeFromSessionHistory_def)
  next
    case fwd
    have "min (int (length ?sh) - 1) (?ci + 1) < int (length ?sh)"
      and "0 \<le> min (int (length ?sh) - 1) (?ci + 1)"
      using lo hi by auto
    with fwd show ?thesis
      using th ne lo hi
      by (simp add: updateTabHistory_def e b f handleForwardNavigation_def touchLastUpdated_def
          buildTreeFromSessionHistory_def)
  next
    case refresh
    then show ?thesis
      using th ne lo hi
      by (simp add: updateTabHistory_def e b f handleNewNavigation_def touchLastUpdated_def
          buildTreeFromSessionHistory_def)
  next
    case new
    then show ?thesis
      using th r
      by (simp add: updateTabHistory_def e b f handleNewNavigation_def tr touchLastUpdated_def
          buildTreeFromSessionHistory_def Let_def)
  qed
qed

lemma update_tracked_inv:
  assumes th: "tabHistories T tabId = Some th" and wf: "wellFormed th"
  shows "\<exists>T' th'. updateTabHistory parse now T tabId u ttl ty info = Inr T'
           \<and> tabHistories T' tabId = Some th' \<and> wellFormed th'
           \<and> (noAdjacentRepeat th \<longrightarrow> noAdjacentRepeat th')"
proof -
  obtain T' th' where up: "updateTabHistory parse now T tabId u ttl ty info = Inr T'"
    and th': "tabHistories T' tabId = Some th'"
    and log: "sessionHistory th' = sessionHistory th \<and> 0 \<le> currentIndex th'
                \<and> currentIndex th' < int (length (sessionHistory th))
              \<or> url (sessionHistory th ! nat (currentIndex th)) \<noteq> u
                \<and> sessionHistory th' = take (nat (currentIndex th) + 1) (sessionHistory th)
                      @ [createHistoryEntry parse now u ttl ty now info]
                \<and> currentIndex th' = int (length (sessionHistory th')) - 1"
    using update_tracked [OF th wf] by blast
  from wf have ne: "sessionHistory th \<noteq> []" and lo: "0 \<le> currentIndex th"
    and hi: "currentIndex th < int (length (sessionHistory th))"
    by (simp_all add: wellFormed_def)
  from log have "wellFormed th' \<and> (noAdjacentRepeat th \<longrightarrow> noAdjacentRepeat th')"
  proof
    assume "sessionHistory th' = sessionHistory th \<and> 0 \<le> currentIndex th'
                \<and> currentIndex th' < int (length (sessionHistory th))"
    then show ?thesis using ne by (simp add: wellFormed_def noAdjacentRepeat_def)
  next
    assume a: "url (sessionHistory th ! nat (currentIndex th)) \<noteq> u
                \<and> sessionHistory th' = take (nat (currentIndex th) + 1) (sessionHistory th)
                      @ [createHistoryEntry parse now u ttl ty now info]
                \<and> currentIndex th' = int (length (sessionHistory th')) - 1"
    have n: "nat (currentIndex th) < length (sessionHistory th)" using lo hi by simp
    have lst: "last (take (nat (currentIndex th) + 1) (map url (sessionHistory th)))
                = url (sessionHistory th ! nat (currentIndex th))"
      using n by (simp add: take_Suc_conv_app_nth)
    have u: "url (createHistoryEntry parse now u ttl ty now info) = u"
      by (simp add: createHistoryEntry_def)
    have w: "wellFormed th'" using a by (simp add: wellFormed_def)
    have "noAdjacentRepeat th'" if "noAdjacentRepeat th"
    proof -
      have "distinct_adj (take (nat (currentIndex th) + 1) (map url (sessionHistory th)))"
        using that unfolding noAdjacentRepeat_def by (rule distinct_adj_take)
      then show ?thesis
        using a lst u by (simp add: noAdjacentRepeat_def distinct_adj_append_iff take_map)
    qed
    with w show ?thesis by simp
  qed
  with up th' show ?thesis by blast
qed

lemma applyUpdate_inv:
  assumes th: "tabHistories T k = Some th" and wf: "wellFormed th"
  shows "\<exists>th'. tabHistories (applyUpdate parse T upd) k = Some th' \<and> wellFormed th'
           \<and> (noAdjacentRepeat th \<longrightarrow> noAdjacentRepeat th')"
proof (cases "k = updTabId upd")
  case True
  with update_tracked_inv [OF th wf, of parse "updNow upd" "updUrl upd" "updTitle upd" "updType upd" "updInfo upd"]
  show ?thesis by (auto simp: applyUpdate_def)
next
  case False
  then show ?thesis using th wf by (simp add: applyUpdate_other)
qed

lemma applyUpdates_inv:
  assumes "tabHistories T k = Some th" "wellFormed th" "noAdjacentRepeat th"
  shows "\<exists>th'. tabHistories (applyUpdates parse T upds) k = Some th' \<and> wellFormed th'
           \<and> noAdjacentRepeat th'"
  using assms
proof (induction upds arbitrary: T th)
  case Nil
  then show ?case by simp
next
  case (Cons upd upds)
  from applyUpdate_inv [OF Cons.prems(1,2), of parse upd] Cons.prems(3)
  obtain th1 where "tabHistories (applyUpdate parse T upd) k = Some th1" "wellFormed th1" "noAdjacentRepeat th1"
    by blast
  from Cons.IH [OF this] show ?case by simp
qed

lemma initialized_inv: "initialized th \<Longrightarrow> wellFormed th \<and> noAdjacentRepeat th"
  by (cases "sessionHistory th") (auto simp: initialized_def wellFormed_def noAdjacentRepeat_def)


section \<open>Tree Builder: the loop invariant\<close>

lemma findIndex_Some: "findIndex P xs = Some p \<Longrightarrow> p < length xs \<and> P (xs ! p) \<and> (\<forall>j < p. \<not> P (xs ! j))"
proof (induction xs arbitrary: p)
  case Nil
  then show ?case by simp
next
  case (Cons x xs)
  show ?case
  proof (cases "P x")
    case True
    with Cons.prems show ?thesis by simp
  next
    case False
    with Cons.prems obtain q where q: "findIndex P xs = Some q" "p = Suc q" by auto
    from Cons.IH [OF q(1)] False q(2) show ?thesis
      by (auto simp: nth_Cons split: nat.splits)
  qed
qed

lemma findIndex_None: "findIndex P xs = None \<Longrightarrow> \<forall>x \<in> set xs. \<not> P x"
  by (induction xs) (auto split: if_splits)

lemma set_flag_nth:
  "h[x := (h ! x)\<lparr>isCurrent := b\<rparr>] ! a = (if a = x \<and> x < length h then (h ! a)\<lparr>isCurrent := b\<rparr> else h ! a)"
proof (cases "x < length h")
  case True
  then show ?thesis by (simp add: nth_list_update)
next
  case False
  then have "h[x := (h ! x)\<lparr>isCurrent := b\<rparr>] = h" by (intro list_update_beyond) simp
  with False show ?thesis by simp
qed

lemma flags_length [simp]: "length (updateCurrentFlags h as idx p c) = length h"
  by (induction as arbitrary: h idx) auto

lemma flags_level [simp]: "level (updateCurrentFlags h as idx p c ! a) = level (h ! a)"
  by (induction as arbitrary: h idx) (simp_all add: set_flag_nth)

lemma flags_children [simp]: "children (updateCurrentFlags h as idx p c ! a) = children (h ! a)"
  by (induction as arbitrary: h idx) (simp_all add: set_flag_nth)

lemma flags_entry [simp]: "entry (updateCurrentFlags h as idx p c ! a) = entry (h ! a)"
  by (induction as arbitrary: h idx) (simp_all add: set_flag_nth)

lemma storeInvI:
  assumes "br \<noteq> []" "br ! 0 = 0"
    and "\<And>j. j < length br \<Longrightarrow> br ! j < length h \<and> level (h ! (br ! j)) = j"
    and "\<And>a c. a < length h \<Longrightarrow> c \<in> set (children (h ! a)) \<Longrightarrow>
               a < c \<and> c < length h \<and> level (h ! c) = Suc (level (h ! a))"
  shows "storeInv (h, br)"
  unfolding storeInv_def prod.case using assms by blast

lemma storeInvD:
  assumes "storeInv (h, br)"
  shows "br \<noteq> []" "br ! 0 = 0"
    and "\<And>j. j < length br \<Longrightarrow> br ! j < length h \<and> level (h ! (br ! j)) = j"
    and "\<And>a c. a < length h \<Longrightarrow> c \<in> set (children (h ! a)) \<Longrightarrow>
               a < c \<and> c < length h \<and> level (h ! c) = Suc (level (h ! a))"
  using assms unfolding storeInv_def prod.case by blast+

lemma buildStep_found_inv:
  assumes inv: "storeInv (h, br)" and p: "p < length br"
  shows "storeInv (updateCurrentFlags h (take (p + 1) br) 0 p c, take (p + 1) br)"
proof (rule storeInvI)
  note d = storeInvD [OF inv]
  show "take (p + 1) br \<noteq> []" using d(1) by simp
  show "take (p + 1) br ! 0 = 0" using d(2) by simp
  show "take (p + 1) br ! j < length (updateCurrentFlags h (take (p + 1) br) 0 p c) \<and>
         level (updateCurrentFlags h (take (p + 1) br) 0 p c ! (take (p + 1) br ! j)) = j"
    if "j < length (take (p + 1) br)" for j
  proof -
    from that have "j < length br" "take (p + 1) br ! j = br ! j" by simp_all
    with d(3) [of j] show ?thesis by simp
  qed
  show "a < x \<and> x < length (updateCurrentFlags h (take (p + 1) br) 0 p c) \<and>
           level (updateCurrentFlags h (take (p + 1) br) 0 p c ! x) =
           Suc (level (updateCurrentFlags h (take (p + 1) br) 0 p c ! a))"
    if "a < length (updateCurrentFlags h (take (p + 1) br) 0 p c)"
      "x \<in> set (children (updateCurrentFlags h (take (p + 1) br) 0 p c ! a))" for a x
  proof -
    from that have "a < length h" "x \<in> set (children (h ! a))" by simp_all
    from d(4) [OF this] show ?thesis by simp
  qed
qed

lemma buildStep_new_inv:
  fixes e c
  assumes inv: "storeInv (h, br)"
  defines "h1 \<equiv> h @ [createTreeNode e (length br) c]"
  defines "h2 \<equiv> h1[last br := (h1 ! last br)\<lparr>children := children (h1 ! last br) @ [length h]\<rparr>]"
  shows "storeInv (h2, br @ [length h])"
proof (rule storeInvI)
  note d = storeInvD [OF inv]
  have par: "last br = br ! (length br - 1)" using d(1) by (simp add: last_conv_nth)
  have parlt: "last br < length h" and parlev: "level (h ! last br) = length br - 1"
    using d(3) [of "length br - 1"] d(1) par by auto
  have len: "length h2 = Suc (length h)" by (simp add: h2_def h1_def)
  have lev: "level (h2 ! a) = level (h ! a)" if "a < length h" for a
    using that by (cases "a = last br") (simp_all add: h2_def h1_def nth_append)
  have levnew: "level (h2 ! length h) = length br"
    using parlt by (simp add: h2_def h1_def createTreeNode_def)
  have chd: "children (h2 ! a) = children (h ! a)" if "a < length h" "a \<noteq> last br" for a
    using that by (simp add: h2_def h1_def nth_append)
  have chpar: "children (h2 ! last br) = children (h ! last br) @ [length h]"
    using parlt by (simp add: h2_def h1_def nth_append)
  have chnew: "children (h2 ! length h) = []"
    using parlt by (simp add: h2_def h1_def createTreeNode_def)
  show "br @ [length h] \<noteq> []" by simp
  show "(br @ [length h]) ! 0 = 0" using d(1,2) by (simp add: nth_append)
  show "(br @ [length h]) ! j < length h2 \<and> level (h2 ! ((br @ [length h]) ! j)) = j"
    if "j < length (br @ [length h])" for j
  proof (cases "j < length br")
    case True
    with d(3) [of j] have "br ! j < length h" "level (h ! (br ! j)) = j" by simp_all
    with True lev [of "br ! j"] len show ?thesis by (simp add: nth_append)
  next
    case False
    with that have "j = length br" by simp
    with levnew len show ?thesis by simp
  qed
  show "a < x \<and> x < length h2 \<and> level (h2 ! x) = Suc (level (h2 ! a))"
    if a: "a < length h2" and x: "x \<in> set (children (h2 ! a))" for a x
  proof -
    from a len consider "a = length h" | "a = last br" "a < length h" | "a \<noteq> last br" "a < length h"
      by fastforce
    then show ?thesis
    proof cases
      case 1
      with x chnew show ?thesis by simp
    next
      case 2
      from x 2 chpar have "x \<in> set (children (h ! last br)) \<or> x = length h" by auto
      then show ?thesis
      proof
        assume "x \<in> set (children (h ! last br))"
        from d(4) [OF parlt this]
        have "last br < x" "x < length h" "level (h ! x) = Suc (level (h ! last br))"
          by simp_all
        with 2 lev [of x] lev [of "last br"] len show ?thesis by simp
      next
        assume "x = length h"
        with 2 levnew lev [of "last br"] parlev d(1) len show ?thesis by simp
      qed
    next
      case 3
      with x chd [of a] have "x \<in> set (children (h ! a))" by simp
      from d(4) [OF 3(2) this]
      have "a < x" "x < length h" "level (h ! x) = Suc (level (h ! a))"
        by simp_all
      with 3 lev [of x] lev [of a] len show ?thesis by simp
    qed
  qed
qed

lemma buildStep_inv:
  assumes "storeInv s"
  shows "storeInv (buildStep ci i e s)"
proof -
  obtain h br where s: "s = (h, br)" by (cases s)
  with assms have inv: "storeInv (h, br)" by simp
  show ?thesis
  proof (cases "findIndex (\<lambda>a. url (entry (h ! a)) = url e) br")
    case (Some p)
    then have p: "p < length br" by (auto dest: findIndex_Some)
    have step: "buildStep ci i e s
        = (updateCurrentFlags h (take (p + 1) br) 0 p (int i = ci), take (p + 1) br)"
      using Some s by (simp add: buildStep_def Let_def)
    show ?thesis unfolding step using inv p by (rule buildStep_found_inv)
  next
    case None
    have step: "buildStep ci i e s
       = ((h @ [createTreeNode e (length br) (int i = ci)])
            [last br := ((h @ [createTreeNode e (length br) (int i = ci)]) ! last br)
               \<lparr>children := children ((h @ [createTreeNode e (length br) (int i = ci)]) ! last br) @ [length h]\<rparr>],
          br @ [length h])"
      using None s by (simp add: buildStep_def Let_def)
    show ?thesis unfolding step using inv by (rule buildStep_new_inv)
  qed
qed

lemma buildLoop_inv: "storeInv s \<Longrightarrow> storeInv (buildLoop es ci i s)"
proof (induction es ci i s rule: buildLoop.induct)
  case (1 es ci i s)
  show ?case
  proof (cases "i < length es")
    case True
    with 1 show ?thesis by (simp add: buildLoop.simps [of es ci i s] buildStep_inv)
  next
    case False
    with 1 show ?thesis by (simp add: buildLoop.simps [of es ci i s])
  qed
qed

lemma storeInv_init: "storeInv ([createTreeNode e 0 c], [0])"
  by (simp add: storeInv_def createTreeNode_def)

lemma readTree_levels:
  assumes "\<forall>a < length h. \<forall>c \<in> set (children (h ! a)).
                a < c \<and> c < length h \<and> level (h ! c) = Suc (level (h ! a))"
    and "a < length h"
  shows "levelsFrom (level (h ! a)) (readTree h a)"
  using assms
proof (induction h a rule: readTree.induct)
  case (1 h a)
  have "levelsFrom (Suc (level (h ! a))) (readTree h c)"
    if "c \<in> set (filter (\<lambda>c. a < c \<and> c < length h) (children (h ! a)))" for c
  proof -
    from that have c: "c \<in> set (children (h ! a))" "c < length h" by auto
    with 1(2,3) have "level (h ! c) = Suc (level (h ! a))" by blast
    with 1(1) [OF that 1(2) c(2)] show ?thesis by simp
  qed
  then show ?case
    by (subst readTree.simps) (simp add: list_all_iff)
qed

lemma readTree_children:
  assumes "storeInv (h, br)" "a < length h"
  shows "readTree h a = NodeTree (entry (h ! a)) (map (readTree h) (children (h ! a)))
           (level (h ! a)) (isCurrent (h ! a))"
proof -
  have "filter (\<lambda>c. a < c \<and> c < length h) (children (h ! a)) = children (h ! a)"
    using storeInvD(4) [OF assms(1) assms(2)] by (simp add: filter_id_conv)
  then show ?thesis by (subst readTree.simps) simp
qed


text \<open>
  On a log without equal neighbours neither test can match the URL of the current entry,
  so there the order of the tests does not matter.
\<close>

lemma refresh_tests_no_repeat:
  assumes th: "tabHistories T tabId = Some th"
    and wf: "wellFormed th" and adj: "noAdjacentRepeat th"
    and u: "u = url (sessionHistory th ! nat (currentIndex th))"
  shows "detectBackNavigation T tabId u info = Inr False
       \<and> detectForwardNavigation T tabId u info = Inr False
       \<and> isRefresh th u"
proof -
  let ?sh = "sessionHistory th" and ?ci = "currentIndex th"
  from wf have lo: "0 \<le> ?ci" and hi: "?ci < int (length ?sh)" by (simp_all add: wellFormed_def)
  from adj have d: "distinct_adj (map url ?sh)" by (simp add: noAdjacentRepeat_def)
  have nb: "url (?sh ! nat (?ci - 1)) \<noteq> u" if "?ci > 0"
  proof -
    from that have s: "Suc (nat (?ci - 1)) = nat ?ci" by linarith
    with hi lo have "Suc (nat (?ci - 1)) < length (map url ?sh)" by simp
    from distinct_adj_nth [OF d this] s hi u show ?thesis by simp
  qed
  have nf: "url (?sh ! nat (?ci + 1)) \<noteq> u" if "?ci < int (length ?sh) - 1"
  proof -
    from that lo have s1: "Suc (nat ?ci) = nat (?ci + 1)" and "Suc (nat ?ci) < length ?sh"
      by linarith+
    then have s: "Suc (nat ?ci) = nat (?ci + 1)" "Suc (nat ?ci) < length (map url ?sh)"
      by simp_all
    from distinct_adj_nth [OF d s(2)] s u lo show ?thesis by simp
  qed
  have "detectBackNavigation T tabId u info = Inr False"
    using th lo hi nb by (auto simp: detectBackNavigation_def at_index_def)
  moreover have "detectForwardNavigation T tabId u info = Inr False"
    using th lo hi nf by (auto simp: detectForwardNavigation_def at_index_def)
  moreover have "isRefresh th u"
    using lo hi u by (simp add: isRefresh_def at_index_def)
  ultimately show ?thesis by simp
qed

lemma refresh_step_no_repeat:
  assumes th: "tabHistories T tabId = Some th"
    and wf: "wellFormed th" and adj: "noAdjacentRepeat th"
    and u: "u = url (sessionHistory th ! nat (currentIndex th))"
  shows "updateTabHistory parse now T tabId u ttl ty info
         = Inr (T\<lparr>tabHistories := (tabHistories T)(tabId \<mapsto>
                  th\<lparr>lastUpdated := now, tree := buildTree (sessionHistory th) (currentIndex th)\<rparr>)\<rparr>)"
proof (rule refresh_step [OF th wf u])
  let ?sh = "sessionHistory th" and ?ci = "currentIndex th"
  from wf have lo: "0 \<le> ?ci" and hi: "?ci < int (length ?sh)" by (simp_all add: wellFormed_def)
  from adj have d: "distinct_adj (map url ?sh)" by (simp add: noAdjacentRepeat_def)
  show "\<not> (?ci > 0 \<and> url (?sh ! nat (?ci - 1)) = u \<and> canGoBack info)"
  proof
    assume a: "?ci > 0 \<and> url (?sh ! nat (?ci - 1)) = u \<and> canGoBack info"
    then have s: "Suc (nat (?ci - 1)) = nat ?ci" by linarith
    with hi lo have "Suc (nat (?ci - 1)) < length (map url ?sh)" by simp
    from distinct_adj_nth [OF d this] s hi a u show False by simp
  qed
  show "\<not> (?ci < int (length ?sh) - 1 \<and> url (?sh ! nat (?ci + 1)) = u \<and> canGoForward info)"
  proof
    assume a: "?ci < int (length ?sh) - 1 \<and> url (?sh ! nat (?ci + 1)) = u \<and> canGoForward info"
    then have "?ci < int (length ?sh) - 1" by simp
    with lo have s1: "Suc (nat ?ci) = nat (?ci + 1)" and "Suc (nat ?ci) < length ?sh"
      by linarith+
    then have s: "Suc (nat ?ci) = nat (?ci + 1)" "Suc (nat ?ci) < length (map url ?sh)"
      by simp_all
    from distinct_adj_nth [OF d s(2)] s a u lo show False by simp
  qed
qed

text \<open>
  Initialisation: the first update of an unknown tab creates a log of one entry at index
  \<open>0\<close> and is then classified as a refresh of that entry.
\<close>

lemma first_update_initializes:
  assumes "tabHistories T tabId = None"
  shows "\<exists>T' th'. updateTabHistory parse now T tabId u ttl ty info = Inr T'
           \<and> tabHistories T' tabId = Some th' \<and> initialized th'
           \<and> map url (sessionHistory th') = [u]"
proof -
  let ?T1 = "ensureTabHistory parse now T tabId u ttl"
  obtain th0 where th0: "tabHistories ?T1 tabId = Some th0"
    and log: "length (sessionHistory th0) = 1" "currentIndex th0 = 0"
      "map url (sessionHistory th0) = [u]"
    using assms by (simp add: ensureTabHistory_def Let_def createHistoryEntry_def)
  have b: "detectBackNavigation ?T1 tabId u info = Inr False"
    using th0 log by (simp add: detectBackNavigation_def)
  have f: "detectForwardNavigation ?T1 tabId u info = Inr False"
    using th0 log by (simp add: detectForwardNavigation_def)
  have r: "isRefresh th0 u"
    using log by (cases "sessionHistory th0") (simp_all add: isRefresh_def at_index_def)
  have n: "handleNewNavigation parse now ?T1 tabId u ttl ty info = ?T1"
    using th0 r by (simp add: handleNewNavigation_def)
  show ?thesis
    using th0 log
    by (simp add: updateTabHistory_def Let_def b f n touchLastUpdated_def
        buildTreeFromSessionHistory_def initialized_def)
qed

section \<open>Claims about the Session Tracker\<close>

text \<open>
  The order of the tests shows only on a log with equal neighbours, which the tracker
  never builds (lemma \<open>applyUpdates_inv\<close>): put into the tracker from outside, the log
  \<open>[a, a]\<close> at index \<open>1\<close> moves to index \<open>0\<close> on an update to \<open>a\<close> with
  \<^verbatim>\<open>canGoBack\<close>.
\<close>

lemma back_tested_first_on_injected_log:
  "resultLog
       (updateTabHistory sampleUrls 2 (trackerWith 1 (sampleLog [page ''http://a/'', page ''http://a/''] 1))
          1 ''http://a/'' None Navigation probed) 1
     = Some ([''http://a/'', ''http://a/''], 0)"
  by (simp add: logOf_def resultLog_def trackerWith_def emptyTracker_def sampleLog_def page_def probed_def
      updateTabHistory_def ensureTabHistory_def detectBackNavigation_def
      detectForwardNavigation_def at_index_def handleBackNavigation_def touchLastUpdated_def
      buildTreeFromSessionHistory_def)

text \<open>
  C2: for every log that the tracker holds (a log reached from an initialised one by any
  sequence of updates; its index is valid) and every update whose URL equals the URL of
  the entry at \<^verbatim>\<open>currentIndex\<close>, whatever the probe reports: neither the Back test nor
  the Forward test matches, the same-URL test does, and the update leaves the entries and
  the index as they are; only \<^verbatim>\<open>lastUpdated\<close> is set, and the tree is rebuilt from the
  unchanged log.
\<close>

theorem C2_refresh_is_noop:
  assumes "tabHistories T0 tabId = Some th0" "initialized th0"
    and "tabHistories (applyUpdates parse T0 upds) tabId = Some th"
    and "u = url (sessionHistory th ! nat (currentIndex th))"
  shows "0 \<le> currentIndex th \<and> currentIndex th < int (length (sessionHistory th))
       \<and> detectBackNavigation (applyUpdates parse T0 upds) tabId u info = Inr False
       \<and> detectForwardNavigation (applyUpdates parse T0 upds) tabId u info = Inr False
       \<and> isRefresh th u
       \<and> updateTabHistory parse now (applyUpdates parse T0 upds) tabId u ttl ty info
           = Inr ((applyUpdates parse T0 upds)\<lparr>tabHistories :=
                    (tabHistories (applyUpdates parse T0 upds))(tabId \<mapsto>
                       th\<lparr>lastUpdated := now,
                          tree := buildTree (sessionHistory th) (currentIndex th)\<rparr>)\<rparr>)"
proof -
  from applyUpdates_inv [OF assms(1), of parse upds] initialized_inv [OF assms(2)] assms(3)
  have wf: "wellFormed th" and adj: "noAdjacentRepeat th" by auto
  note t = refresh_tests_no_repeat [OF assms(3) wf adj assms(4), of info]
  from wf have "0 \<le> currentIndex th \<and> currentIndex th < int (length (sessionHistory th))"
    by (simp add: wellFormed_def)
  moreover note t
  moreover have "updateTabHistory parse now (applyUpdates parse T0 upds) tabId u ttl ty info
           = Inr ((applyUpdates parse T0 upds)\<lparr>tabHistories :=
                    (tabHistories (applyUpdates parse T0 upds))(tabId \<mapsto>
                       th\<lparr>lastUpdated := now,
                          tree := buildTree (sessionHistory th) (currentIndex th)\<rparr>)\<rparr>)"
    using assms(3) wf adj assms(4) by (rule refresh_step_no_repeat)
  ultimately show ?thesis by simp
qed

theorem C2_refresh_is_noop_witness:
  "resultLog
     (updateTabHistory sampleUrls 3
        (applyUpdates sampleUrls (trackerWith 1 (sampleLog [page ''http://a/''] 0))
           [visit ''http://b/''])
        1 ''http://b/'' None Navigation probed) 1
   = Some ([''http://a/'', ''http://b/''], 1)"
proof -
  let ?S = "trackerWith 1 (sampleLog [page ''http://a/''] 0)"
  let ?T = "applyUpdates sampleUrls ?S [visit ''http://b/'']"
  have l: "logOf ?T 1 = Some ([''http://a/'', ''http://b/''], 1)"
    by code_simp
  then obtain th where th: "tabHistories ?T 1 = Some th"
    and sh: "map url (sessionHistory th) = [''http://a/'', ''http://b/'']"
    and ci: "currentIndex th = 1"
    by (auto simp: logOf_def)
  from sh have "length (sessionHistory th) = 2" by (metis length_map length_Cons list.size(3) numeral_2_eq_2)
  with sh have u: "''http://b/'' = url (sessionHistory th ! nat (currentIndex th))"
    using nth_map [of 1 "sessionHistory th" url] ci by simp
  have t0: "tabHistories ?S 1 = Some (sampleLog [page ''http://a/''] 0)"
    by (simp add: trackerWith_def emptyTracker_def)
  have i0: "initialized (sampleLog [page ''http://a/''] 0)"
    by (simp add: initialized_def sampleLog_def)
  from C2_refresh_is_noop [OF t0 i0 th u, of probed 3 None Navigation]
  show ?thesis using sh ci by (simp add: resultLog_def logOf_def)
qed

text \<open>
  C3: from the log \<open>[a, b, c]\<close> of three pages (the URLs of \<open>a\<close> and \<open>c\<close> differ) at
  index \<open>2\<close>, an update to the URL of \<open>b\<close> with \<^verbatim>\<open>canGoBack\<close> gives index \<open>1\<close>, and
  then an update to the URL of \<open>c\<close> with \<^verbatim>\<open>canGoForward\<close> gives index \<open>2\<close>; the
  entries are the same after both steps.
\<close>

theorem C3_back_forward_round_trip:
  assumes th: "tabHistories T tabId = Some th"
    and log: "sessionHistory th = [a, b, c]" "currentIndex th = 2"
    and ac: "url a \<noteq> url c"
    and flags: "canGoBack info1" "canGoForward info2"
  shows "updateTabHistory parse now1 T tabId (url b) ttl1 ty1 info1
           = Inr (T\<lparr>tabHistories := (tabHistories T)(tabId \<mapsto>
                     th\<lparr>currentIndex := 1, lastUpdated := now1, tree := buildTree [a, b, c] 1\<rparr>)\<rparr>)
       \<and> updateTabHistory parse now2
             (T\<lparr>tabHistories := (tabHistories T)(tabId \<mapsto>
                     th\<lparr>currentIndex := 1, lastUpdated := now1, tree := buildTree [a, b, c] 1\<rparr>)\<rparr>)
             tabId (url c) ttl2 ty2 info2
           = Inr (T\<lparr>tabHistories := (tabHistories T)(tabId \<mapsto>
                     th\<lparr>currentIndex := 2, lastUpdated := now2, tree := buildTree [a, b, c] 2\<rparr>)\<rparr>)"
proof -
  let ?th1 = "th\<lparr>currentIndex := 1, lastUpdated := now1, tree := buildTree [a, b, c] 1\<rparr>"
  let ?T1 = "T\<lparr>tabHistories := (tabHistories T)(tabId \<mapsto> ?th1)\<rparr>"
  have wf: "wellFormed th" using log by (simp add: wellFormed_def)
  have s1: "updateTabHistory parse now1 T tabId (url b) ttl1 ty1 info1 = Inr ?T1"
    using back_step [OF th wf, of "url b" info1 parse now1 ttl1 ty1] log flags by simp
  have th1: "tabHistories ?T1 tabId = Some ?th1" by simp
  have wf1: "wellFormed ?th1" using log by (simp add: wellFormed_def)
  have s2: "updateTabHistory parse now2 ?T1 tabId (url c) ttl2 ty2 info2
      = Inr (?T1\<lparr>tabHistories := (tabHistories ?T1)(tabId \<mapsto>
                  ?th1\<lparr>currentIndex := currentIndex ?th1 + 1, lastUpdated := now2,
                     tree := buildTree (sessionHistory ?th1) (currentIndex ?th1 + 1)\<rparr>)\<rparr>)"
    by (rule forward_step [OF th1 wf1]) (use log ac flags in simp_all)
  show ?thesis using s1 s2 log by simp
qed

theorem C3_back_forward_round_trip_witness:
  "resultLog
     (updateTabHistory sampleUrls 2
        (trackerWith 1 (sampleLog [page ''http://a/'', page ''http://b/'', page ''http://c/''] 2))
        1 ''http://b/'' None Navigation probed) 1
     = Some ([''http://a/'', ''http://b/'', ''http://c/''], 1)
   \<and> resultLog
     (updateTabHistory sampleUrls 3
        ((trackerWith 1 (sampleLog [page ''http://a/'', page ''http://b/'', page ''http://c/''] 2))
           \<lparr>tabHistories := [1 \<mapsto> (sampleLog [page ''http://a/'', page ''http://b/'', page ''http://c/''] 2)
              \<lparr>currentIndex := 1, lastUpdated := 2,
               tree := buildTree [page ''http://a/'', page ''http://b/'', page ''http://c/''] 1\<rparr>]\<rparr>)
        1 ''http://c/'' None Navigation probed) 1
     = Some ([''http://a/'', ''http://b/'', ''http://c/''], 2)"
  using C3_back_forward_round_trip [of
      "trackerWith 1 (sampleLog [page ''http://a/'', page ''http://b/'', page ''http://c/''] 2)" 1
      "sampleLog [page ''http://a/'', page ''http://b/'', page ''http://c/''] 2"
      "page ''http://a/''" "page ''http://b/''" "page ''http://c/''" probed probed
      sampleUrls 2 None Navigation 3 None Navigation]
  by (simp add: trackerWith_def emptyTracker_def sampleLog_def page_def probed_def logOf_def
      resultLog_def)

text \<open>
  C4: an update of a tracked tab that is none of back, forward and refresh (both
  detections answer no and the URL is not that of the current entry) truncates the entries
  to the positions \<open>0\<close> to \<^verbatim>\<open>currentIndex\<close>, appends one entry, and sets the index to
  the last position; then the tree is rebuilt. The appended entry has the URL of the
  update, its title (the hostname of the URL, or the URL itself if it does not parse, when
  the title is absent), the time of the update, its type, and the history length (\<open>1\<close>
  for a falsy length), the two flags and the state that the probe reported. In particular
  the log \<open>[a, b, c]\<close> at index \<open>1\<close> becomes \<open>[a, b, d]\<close> at index \<open>2\<close>.
\<close>

theorem C4_new_navigation:
  assumes th: "tabHistories T tabId = Some th"
    and b: "detectBackNavigation T tabId u info = Inr False"
    and f: "detectForwardNavigation T tabId u info = Inr False"
    and r: "\<not> isRefresh th u"
  shows "updateTabHistory parse now T tabId u ttl ty info
         = Inr (let newEntry =
                      \<lparr>url = u,
                       title = (if ttl = None \<or> ttl = Some []
                                then (case parse u of Some hostname \<Rightarrow> hostname | None \<Rightarrow> u)
                                else the ttl),
                       timestamp = now,
                       type = ty,
                       entryHistoryLength = (if historyLength info = 0 then 1 else historyLength info),
                       entryCanGoBack = canGoBack info,
                       entryCanGoForward = canGoForward info,
                       state = currentState info\<rparr>;
                    entries = take (nat (currentIndex th + 1)) (sessionHistory th) @ [newEntry]
                in T\<lparr>tabHistories := (tabHistories T)(tabId \<mapsto>
                  th\<lparr>sessionHistory := entries, currentIndex := int (length entries) - 1,
                     lastUpdated := now, tree := buildTree entries (int (length entries) - 1)\<rparr>)\<rparr>)"
proof -
  have e: "ensureTabHistory parse now T tabId u ttl = T"
    using th by (rule ensure_tracked)
  have lo: "currentIndex th < int (length (sessionHistory th)) - 1 \<Longrightarrow> 0 \<le> currentIndex th + 1"
    using f th by (auto simp: detectForwardNavigation_def at_index_def split: if_splits)
  have tr: "(if currentIndex th < int (length (sessionHistory th)) - 1
             then slice0 (sessionHistory th) (currentIndex th + 1) else sessionHistory th)
           = take (nat (currentIndex th + 1)) (sessionHistory th)"
    using lo by (auto simp: slice0_def)
  have new: "createHistoryEntry parse now u ttl ty now info
      = \<lparr>url = u,
         title = (if ttl = None \<or> ttl = Some []
                  then (case parse u of Some hostname \<Rightarrow> hostname | None \<Rightarrow> u)
                  else the ttl),
         timestamp = now,
         type = ty,
         entryHistoryLength = (if historyLength info = 0 then 1 else historyLength info),
         entryCanGoBack = canGoBack info,
         entryCanGoForward = canGoForward info,
         state = currentState info\<rparr>"
    by (cases ttl) (simp_all add: createHistoryEntry_def getDomainFromUrl_def)
  show ?thesis
    using th r by (simp add: updateTabHistory_def e b f handleNewNavigation_def tr new
        touchLastUpdated_def buildTreeFromSessionHistory_def Let_def)
qed

theorem C4_truncation_on_branch:
  "resultEntries
     (updateTabHistory sampleUrls 2
        (trackerWith 1 (sampleLog [page ''http://a/'', page ''http://b/'', page ''http://c/''] 1))
        1 ''http://d/'' (Some ''Page D'') Activation
        \<lparr>historyLength = 3, canGoBack = True, canGoForward = False, currentState = Some ''s''\<rparr>) 1
     = Some ([page ''http://a/'', page ''http://b/'',
              \<lparr>url = ''http://d/'', title = ''Page D'', timestamp = 2, type = Activation,
               entryHistoryLength = 3, entryCanGoBack = True, entryCanGoForward = False,
               state = Some ''s''\<rparr>], 2)"
  using C4_new_navigation [of
      "trackerWith 1 (sampleLog [page ''http://a/'', page ''http://b/'', page ''http://c/''] 1)" 1
      "sampleLog [page ''http://a/'', page ''http://b/'', page ''http://c/''] 1"
      "''http://d/''"
      "\<lparr>historyLength = 3, canGoBack = True, canGoForward = False, currentState = Some ''s''\<rparr>"
      sampleUrls 2 "Some ''Page D''" Activation]
  by (simp add: trackerWith_def emptyTracker_def sampleLog_def page_def
      resultEntries_def detectBackNavigation_def detectForwardNavigation_def at_index_def isRefresh_def
      Let_def)

text \<open>
  C6: starting from an initialised log (one entry, index \<open>0\<close>), after any sequence of
  updates (of this tab or of others) the log is not empty and the index points into it.
  No update of the tab throws on the way (lemma \<open>update_tracked_inv\<close>).
\<close>

theorem C6_well_formed_preserved:
  assumes "tabHistories T tabId = Some th" "initialized th"
  shows "\<exists>th'. tabHistories (applyUpdates parse T upds) tabId = Some th'
           \<and> sessionHistory th' \<noteq> [] \<and> 0 \<le> currentIndex th'
           \<and> currentIndex th' < int (length (sessionHistory th'))"
  using applyUpdates_inv [OF assms(1), of parse upds] initialized_inv [OF assms(2)]
  by (auto simp: wellFormed_def)

theorem C6_well_formed_preserved_witness:
  "\<exists>th'. tabHistories (applyUpdates sampleUrls (trackerWith 1 (sampleLog [page ''http://a/''] 0))
             [visit ''http://b/'', visit ''http://a/'', visit ''http://c/'']) 1 = Some th'
           \<and> sessionHistory th' \<noteq> [] \<and> 0 \<le> currentIndex th'
           \<and> currentIndex th' < int (length (sessionHistory th'))"
  using C6_well_formed_preserved [of "trackerWith 1 (sampleLog [page ''http://a/''] 0)" 1
      "sampleLog [page ''http://a/''] 0" sampleUrls
      "[visit ''http://b/'', visit ''http://a/'', visit ''http://c/'']"]
  by (simp add: trackerWith_def emptyTracker_def sampleLog_def initialized_def)

text \<open>
  C9: in every log reached from an initialised log by updates, no two neighbouring
  entries have the same URL.
\<close>

theorem C9_no_adjacent_repeat:
  assumes "tabHistories T tabId = Some th" "initialized th"
  shows "\<exists>th'. tabHistories (applyUpdates parse T upds) tabId = Some th'
           \<and> distinct_adj (map url (sessionHistory th'))"
  using applyUpdates_inv [OF assms(1), of parse upds] initialized_inv [OF assms(2)]
  by (auto simp: noAdjacentRepeat_def)

theorem C9_no_adjacent_repeat_witness:
  "\<exists>th'. tabHistories (applyUpdates sampleUrls (trackerWith 1 (sampleLog [page ''http://a/''] 0))
             [visit ''http://a/'', visit ''http://b/'', visit ''http://b/'']) 1 = Some th'
           \<and> distinct_adj (map url (sessionHistory th'))"
  using C9_no_adjacent_repeat [of "trackerWith 1 (sampleLog [page ''http://a/''] 0)" 1
      "sampleLog [page ''http://a/''] 0" sampleUrls
      "[visit ''http://a/'', visit ''http://b/'', visit ''http://b/'']"]
  by (simp add: trackerWith_def emptyTracker_def sampleLog_def initialized_def)

section \<open>Claims about tab closure\<close>

text \<open>
  C7: closing a tracked tab stores its record, with the same entries, index and tree, in
  the closed set under the same id (with \<^verbatim>\<open>closedAt\<close> and \<^verbatim>\<open>isClosed\<close> set) and
  removes it from the active set, leaving the records of all other tabs as they are; the
  command \<^verbatim>\<open>clearClosedTabs\<close> empties the closed set and leaves the active records
  unchanged.
\<close>

theorem C7_closed_tab_retention:
  assumes "tabHistories T tabId = Some tabHistory"
  shows "closedTabHistories (handleTabClose now T tabId) tabId
           = Some (tabHistory\<lparr>closedAt := Some now, isClosed := True\<rparr>)
       \<and> tabHistories (handleTabClose now T tabId) tabId = None
       \<and> (\<forall>other. other \<noteq> tabId \<longrightarrow>
             tabHistories (handleTabClose now T tabId) other = tabHistories T other
           \<and> closedTabHistories (handleTabClose now T tabId) other = closedTabHistories T other)
       \<and> closedTabHistories (handleMessage T ClearClosedTabs) = Map.empty
       \<and> tabHistories (handleMessage T ClearClosedTabs) = tabHistories T
       \<and> tabCreationTimes (handleMessage T ClearClosedTabs) = tabCreationTimes T"
  using assms by (simp add: handleTabClose_def)

theorem C7_closed_tab_retention_witness:
  "map_option (\<lambda>r. (sessionHistory r, currentIndex r, tree r))
      (closedTabHistories (handleTabClose 5 (trackerWith 1 (sampleLog [page ''http://a/'', page ''http://b/''] 1)) 1) 1)
     = Some ([page ''http://a/'', page ''http://b/''], 1, buildTree [page ''http://a/'', page ''http://b/''] 1)
   \<and> tabHistories (handleTabClose 5 (trackerWith 1 (sampleLog [page ''http://a/'', page ''http://b/''] 1)) 1) 1 = None"
  using C7_closed_tab_retention [of "trackerWith 1 (sampleLog [page ''http://a/'', page ''http://b/''] 1)" 1
      "sampleLog [page ''http://a/'', page ''http://b/''] 1" 5]
  by (simp add: trackerWith_def emptyTracker_def sampleLog_def)

text \<open>The earlier copy of \<^verbatim>\<open>handleTabClose\<close> keeps nothing of a closed tab.\<close>

lemma handleTabClose_earlier_discards:
  "tabHistories (handleTabClose_earlier T tabId) tabId = None
   \<and> closedTabHistories (handleTabClose_earlier T tabId) = closedTabHistories T"
  by (simp add: handleTabClose_earlier_def)

section \<open>Claims about the Tree Builder\<close>

text \<open>
  C5: a rebuild of a tab with a non-empty log stores the tree \<open>buildTree\<close> of the
  entries and the index, whatever tree and other fields the record held before; so two
  trackers that agree on the entries and the index of the tab get the same tree, and a
  second rebuild changes nothing.
\<close>

theorem C5_rebuild_idempotent:
  assumes "tabHistories T tabId = Some th" "tabHistories T' tabId = Some th'"
    and "sessionHistory th \<noteq> []"
    and "sessionHistory th' = sessionHistory th" "currentIndex th' = currentIndex th"
  shows "map_option tree (tabHistories (buildTreeFromSessionHistory T tabId) tabId)
           = Some (buildTree (sessionHistory th) (currentIndex th))
       \<and> map_option tree (tabHistories (buildTreeFromSessionHistory T' tabId) tabId)
           = map_option tree (tabHistories (buildTreeFromSessionHistory T tabId) tabId)
       \<and> buildTreeFromSessionHistory (buildTreeFromSessionHistory T tabId) tabId
           = buildTreeFromSessionHistory T tabId"
  using assms by (simp add: buildTreeFromSessionHistory_def)

theorem C5_rebuild_idempotent_witness:
  "map_option tree (tabHistories (buildTreeFromSessionHistory
      (trackerWith 1 ((sampleLog [page ''http://a/'', page ''http://b/''] 1)
         \<lparr>tree := readTree [createTreeNode (page ''http://a/'') 0 True] 0, lastUpdated := 9\<rparr>)) 1) 1)
    = map_option tree (tabHistories (buildTreeFromSessionHistory
      (trackerWith 1 (sampleLog [page ''http://a/'', page ''http://b/''] 1)) 1) 1)
   \<and> buildTreeFromSessionHistory (buildTreeFromSessionHistory
      (trackerWith 1 (sampleLog [page ''http://a/'', page ''http://b/''] 1)) 1) 1
    = buildTreeFromSessionHistory (trackerWith 1 (sampleLog [page ''http://a/'', page ''http://b/''] 1)) 1"
  using C5_rebuild_idempotent [of
      "trackerWith 1 (sampleLog [page ''http://a/'', page ''http://b/''] 1)" 1
      "sampleLog [page ''http://a/'', page ''http://b/''] 1"
      "trackerWith 1 ((sampleLog [page ''http://a/'', page ''http://b/''] 1)
         \<lparr>tree := readTree [createTreeNode (page ''http://a/'') 0 True] 0, lastUpdated := 9\<rparr>)"
      "(sampleLog [page ''http://a/'', page ''http://b/''] 1)
         \<lparr>tree := readTree [createTreeNode (page ''http://a/'') 0 True] 0, lastUpdated := 9\<rparr>"]
  by (simp add: trackerWith_def emptyTracker_def sampleLog_def)

text \<open>The stores of a rebuild satisfy the guard of \<open>readTree\<close>; the levels are the depths.\<close>

lemma buildTree_levels: "levelsFrom 0 (buildTree es ci)"
proof -
  obtain h br where l: "buildLoop es ci 1 ([createTreeNode (es ! 0) 0 (ci = 0)], [0]) = (h, br)"
    by (cases "buildLoop es ci 1 ([createTreeNode (es ! 0) 0 (ci = 0)], [0])")
  have inv: "storeInv (h, br)"
    using buildLoop_inv [OF storeInv_init, of es ci 1 "es ! 0" "ci = 0"] l by simp
  note d = storeInvD [OF inv]
  from d(1,2) d(3) [of 0] have z: "0 < length h" "level (h ! 0) = 0" by auto
  have ch: "\<forall>a < length h. \<forall>c \<in> set (children (h ! a)).
                a < c \<and> c < length h \<and> level (h ! c) = Suc (level (h ! a))"
    using d(4) by blast
  have "levelsFrom (level (h ! 0)) (readTree h 0)"
    using ch z(1) by (rule readTree_levels)
  with z(2) have "levelsFrom 0 (readTree h 0)" by simp
  then show ?thesis unfolding buildTree_def Let_def l by simp
qed

text \<open>
  C10: in the tree that a rebuild stores, the root has level \<open>0\<close> and every child has
  the level of its parent plus one, so the level of each node is its distance from the
  root; this includes the nodes that a truncation of the branch went back to.
\<close>

theorem C10_level_is_depth:
  assumes "tabHistories T tabId = Some th" "sessionHistory th \<noteq> []"
  shows "\<exists>th'. tabHistories (buildTreeFromSessionHistory T tabId) tabId = Some th'
           \<and> tree th' = buildTree (sessionHistory th) (currentIndex th)
           \<and> levelsFrom 0 (tree th')"
  using assms by (simp add: buildTreeFromSessionHistory_def buildTree_levels)

theorem C10_level_is_depth_witness:
  "\<exists>th'. tabHistories (buildTreeFromSessionHistory
        (trackerWith 1 (sampleLog [page ''http://a/'', page ''http://b/'', page ''http://c/'', page ''http://b/'', page ''http://d/''] 4)) 1) 1
      = Some th' \<and> levelsFrom 0 (tree th')"
  using C10_level_is_depth [of
      "trackerWith 1 (sampleLog [page ''http://a/'', page ''http://b/'', page ''http://c/'', page ''http://b/'', page ''http://d/''] 4)" 1
      "sampleLog [page ''http://a/'', page ''http://b/'', page ''http://c/'', page ''http://b/'', page ''http://d/''] 4"]
  by (auto simp: trackerWith_def emptyTracker_def sampleLog_def)

section \<open>Tree Builder: the current flag\<close>

lemma readTree_sel [simp]:
  "nIsCurrent (readTree h a) = isCurrent (h ! a)"
  "nEntry (readTree h a) = entry (h ! a)"
  "nLevel (readTree h a) = level (h ! a)"
  by (subst readTree.simps, simp)+

lemma readTree_children_sel:
  "nChildren (readTree h a) = map (readTree h) (filter (\<lambda>c. a < c \<and> c < length h) (children (h ! a)))"
  by (subst readTree.simps) simp

lemma nodes_unfold: "nodes t = t # concat (map nodes (nChildren t))"
  by (cases t) simp

lemma nodes_readTree: "nodes (readTree h a) = map (readTree h) (addrs h a)"
proof (induction h a rule: readTree.induct)
  case (1 h a)
  let ?cs = "filter (\<lambda>c. a < c \<and> c < length h) (children (h ! a))"
  have m: "map (\<lambda>x. nodes (readTree h x)) ?cs = map (\<lambda>x. map (readTree h) (addrs h x)) ?cs"
    by (rule map_cong) (use 1 in auto)
  have "concat (map nodes (map (readTree h) ?cs)) = concat (map (\<lambda>x. nodes (readTree h x)) ?cs)"
    by (simp add: o_def)
  also have "\<dots> = concat (map (\<lambda>x. map (readTree h) (addrs h x)) ?cs)"
    by (simp only: m)
  also have "\<dots> = map (readTree h) (concat (map (addrs h) ?cs))"
    by (simp add: map_concat o_def)
  finally have sub: "concat (map nodes (map (readTree h) ?cs))
      = map (readTree h) (concat (map (addrs h) ?cs))" .
  have "nodes (readTree h a) = readTree h a # concat (map nodes (map (readTree h) ?cs))"
    by (simp add: nodes_unfold readTree_children_sel)
  also have "\<dots> = map (readTree h) (a # concat (map (addrs h) ?cs))"
    using sub by simp
  also have "a # concat (map (addrs h) ?cs) = addrs h a"
    by (rule addrs.simps [symmetric])
  finally show ?case .
qed

lemma currentNodes_readTree:
  "currentNodes (readTree h a) = map (readTree h) (filter (\<lambda>x. isCurrent (h ! x)) (addrs h a))"
  by (simp add: currentNodes_def nodes_readTree filter_map o_def)

text \<open>The addresses below a node depend on the child lists and the size of the store only.\<close>

lemma addrs_cong:
  assumes "length h' = length h" "\<And>x. children (h' ! x) = children (h ! x)"
  shows "addrs h' a = addrs h a"
  using assms
proof (induction h a rule: addrs.induct)
  case (1 h a)
  let ?cs = "filter (\<lambda>c. a < c \<and> c < length h) (children (h ! a))"
  have m: "map (addrs h') ?cs = map (addrs h) ?cs"
    by (rule map_cong) (use 1 in auto)
  have "addrs h' a = a # concat (map (addrs h') (filter (\<lambda>c. a < c \<and> c < length h') (children (h' ! a))))"
    by (rule addrs.simps)
  also have "\<dots> = a # concat (map (addrs h) ?cs)"
    by (simp only: 1(2,3) m)
  also have "\<dots> = addrs h a"
    by (rule addrs.simps [symmetric])
  finally show ?case .
qed

lemma addrs_flags [simp]: "addrs (updateCurrentFlags h as idx p c) a = addrs h a"
  by (rule addrs_cong) simp_all


lemma mset_concat_map_cong:
  assumes "\<And>x. x \<in> set xs \<Longrightarrow> mset (f x) = g x"
  shows "mset (concat (map f xs)) = sum_list (map g xs)"
  using assms by (induction xs) simp_all

lemma replicate_mset_add: "replicate_mset (j + k) n = replicate_mset j n + replicate_mset k n"
  by (induction j) simp_all

lemma sum_list_plus_replicate:
  "sum_list (map (\<lambda>x. M x + replicate_mset (k x) n) xs)
     = sum_list (map M xs) + replicate_mset (sum_list (map k xs)) n"
  by (induction xs) (simp_all add: replicate_mset_add ac_simps)

lemma count_sum_list_mset: "count (sum_list (map M xs)) y = sum_list (map (\<lambda>x. count (M x) y) xs)"
  by (induction xs) simp_all

lemma addrs_closed:
  assumes "\<forall>c \<in> set (children (h ! a)). a < c \<and> c < length h"
  shows "addrs h a = a # concat (map (addrs h) (children (h ! a)))"
proof -
  have "filter (\<lambda>c. a < c \<and> c < length h) (children (h ! a)) = children (h ! a)"
    using assms by (simp add: filter_id_conv)
  then show ?thesis by (subst addrs.simps) simp
qed

text \<open>
  Allocating a node and pushing it onto the children of \<open>par\<close>: the new address is
  added below every occurrence of \<open>par\<close>.
\<close>

lemma addrs_push:
  fixes node :: TreeNode
  assumes inv: "\<forall>a < length h. \<forall>c \<in> set (children (h ! a)). a < c \<and> c < length h"
    and par: "par < length h"
    and h2: "h2 = (h @ [node])[par := ((h @ [node]) ! par)\<lparr>children := children ((h @ [node]) ! par) @ [length h]\<rparr>]"
    and leaf: "children node = []"
  shows "a < length h \<Longrightarrow> mset (addrs h2 a)
           = mset (addrs h a) + replicate_mset (count (mset (addrs h a)) par) (length h)"
proof (induction "length h - a" arbitrary: a rule: less_induct)
  case less
  let ?n = "length h"
  let ?cs = "children (h ! a)"
  let ?k = "\<lambda>c. count (mset (addrs h c)) par"
  from less.prems inv have cs: "\<forall>c \<in> set ?cs. a < c \<and> c < ?n" by blast
  have len2: "length h2 = Suc ?n" by (simp add: h2)
  have ch2: "children (h2 ! a) = (if a = par then ?cs @ [?n] else ?cs)"
    using less.prems par by (simp add: h2 nth_append nth_list_update)
  have new: "addrs h2 ?n = [?n]"
  proof -
    have "children (h2 ! ?n) = []" using par leaf by (simp add: h2 nth_list_update)
    then show ?thesis by (subst addrs.simps) simp
  qed
  have old: "addrs h a = a # concat (map (addrs h) ?cs)"
    using cs by (rule addrs_closed)
  have IH: "mset (addrs h2 c) = mset (addrs h c) + replicate_mset (?k c) ?n" if "c \<in> set ?cs" for c
    using that cs by (intro less.hyps) auto
  have sub: "mset (concat (map (addrs h2) ?cs))
      = sum_list (map (\<lambda>c. mset (addrs h c)) ?cs) + replicate_mset (sum_list (map ?k ?cs)) ?n"
    using IH by (simp add: mset_concat_map_cong [where g = "\<lambda>c. mset (addrs h c) + replicate_mset (?k c) ?n"]
        sum_list_plus_replicate)
  have oldm: "mset (addrs h a) = add_mset a (sum_list (map (\<lambda>c. mset (addrs h c)) ?cs))"
    by (simp add: old mset_concat o_def)
  have cnt: "count (mset (addrs h a)) par = (if a = par then 1 else 0) + sum_list (map ?k ?cs)"
    by (simp add: oldm count_sum_list_mset)
  have new2: "addrs h2 a = a # concat (map (addrs h2) (children (h2 ! a)))"
    by (rule addrs_closed) (use cs ch2 len2 less.prems in auto)
  show ?case
  proof (cases "a = par")
    case True
    with ch2 have c: "children (h2 ! a) = ?cs @ [?n]" by simp
    have "mset (addrs h2 a) = add_mset a (mset (concat (map (addrs h2) ?cs)) + {#?n#})"
      by (subst new2) (simp add: c new)
    also have "\<dots> = mset (addrs h a) + replicate_mset (Suc (sum_list (map ?k ?cs))) ?n"
      by (simp add: sub oldm)
    also have "Suc (sum_list (map ?k ?cs)) = count (mset (addrs h a)) par"
      using True cnt by simp
    finally show ?thesis .
  next
    case False
    with ch2 have c: "children (h2 ! a) = ?cs" by simp
    have "mset (addrs h2 a) = add_mset a (mset (concat (map (addrs h2) ?cs)))"
      by (subst new2) (simp add: c)
    also have "\<dots> = mset (addrs h a) + replicate_mset (sum_list (map ?k ?cs)) ?n"
      by (simp add: sub oldm)
    also have "sum_list (map ?k ?cs) = count (mset (addrs h a)) par"
      using False cnt by simp
    finally show ?thesis .
  qed
qed


lemma flags_cleared:
  "isCurrent (updateCurrentFlags h as idx p False ! a) \<Longrightarrow> isCurrent (h ! a)"
proof (induction as arbitrary: h idx)
  case Nil
  then show ?case by simp
next
  case (Cons x as)
  from Cons.IH [of "h[x := (h ! x)\<lparr>isCurrent := False\<rparr>]" "Suc idx"] Cons.prems
  have "isCurrent (h[x := (h ! x)\<lparr>isCurrent := False\<rparr>] ! a)" by simp
  then show ?case by (simp add: set_flag_nth split: if_splits)
qed

lemma flags_set_last:
  assumes "as \<noteq> []" "idx + length as = Suc p" "\<forall>a < length h. \<not> isCurrent (h ! a)"
    "last as < length h" "a < length h"
  shows "isCurrent (updateCurrentFlags h as idx p True ! a) \<longleftrightarrow> a = last as"
  using assms
proof (induction as arbitrary: h idx)
  case Nil
  then show ?case by simp
next
  case (Cons x as)
  let ?h1 = "h[x := (h ! x)\<lparr>isCurrent := (idx = p \<and> True)\<rparr>]"
  show ?case
  proof (cases "as = []")
    case True
    with Cons.prems have "idx = p" "x < length h" by simp_all
    with True Cons.prems(3,5) show ?thesis by (simp add: set_flag_nth)
  next
    case False
    with Cons.prems(2) have ne: "idx \<noteq> p" by (cases as) auto
    have none: "\<forall>a < length ?h1. \<not> isCurrent (?h1 ! a)"
      using Cons.prems(3) ne by (simp add: set_flag_nth)
    have "isCurrent (updateCurrentFlags ?h1 as (Suc idx) p True ! a) \<longleftrightarrow> a = last as"
      using False Cons.prems(2,4,5) none by (intro Cons.IH) simp_all
    with False show ?thesis by simp
  qed
qed

lemma flagInvD:
  assumes "flagInv es ci i (h, br)"
  shows "storeInv (h, br)" "mset (addrs h 0) = mset [0..<length h]"
    and "int i \<le> ci \<Longrightarrow> a < length h \<Longrightarrow> \<not> isCurrent (h ! a)"
    and "a < length h \<Longrightarrow> b < length h \<Longrightarrow> isCurrent (h ! a) \<Longrightarrow> isCurrent (h ! b) \<Longrightarrow> a = b"
    and "int i = ci + 1 \<Longrightarrow> isCurrent (h ! last br) \<and> url (entry (h ! last br)) = url (es ! nat ci)"
  using assms unfolding flagInv_def prod.case by blast+

lemma flagInvI:
  assumes "storeInv (h, br)" "mset (addrs h 0) = mset [0..<length h]"
    and "\<And>a. int i \<le> ci \<Longrightarrow> a < length h \<Longrightarrow> \<not> isCurrent (h ! a)"
    and "\<And>a b. a < length h \<Longrightarrow> b < length h \<Longrightarrow> isCurrent (h ! a) \<Longrightarrow> isCurrent (h ! b) \<Longrightarrow> a = b"
    and "int i = ci + 1 \<Longrightarrow> isCurrent (h ! last br) \<and> url (entry (h ! last br)) = url (es ! nat ci)"
  shows "flagInv es ci i (h, br)"
  unfolding flagInv_def prod.case using assms by blast

lemma flagInv_found:
  assumes inv: "flagInv es ci i (h, br)"
    and f: "findIndex (\<lambda>a. url (entry (h ! a)) = url (es ! i)) br = Some p"
  shows "flagInv es ci (Suc i) (updateCurrentFlags h (take (p + 1) br) 0 p (int i = ci), take (p + 1) br)"
proof (rule flagInvI)
  note d = flagInvD [OF inv]
  note sd = storeInvD [OF d(1)]
  let ?br = "take (p + 1) br"
  let ?h = "updateCurrentFlags h ?br 0 p (int i = ci)"
  from findIndex_Some [OF f] have p: "p < length br" and pu: "url (entry (h ! (br ! p))) = url (es ! i)"
    by simp_all
  have lastbr: "last ?br = br ! p" using p by (simp add: take_Suc_conv_app_nth)
  have lastlt: "last ?br < length h" using sd(3) [OF p] lastbr by simp
  show "storeInv (?h, ?br)" using d(1) p by (rule buildStep_found_inv)
  show "mset (addrs ?h 0) = mset [0..<length ?h]" using d(2) by simp
  have cur: "isCurrent (?h ! a) \<longleftrightarrow> a = last ?br" if "int i = ci" "a < length h" for a
  proof -
    have "isCurrent (updateCurrentFlags h ?br 0 p True ! a) \<longleftrightarrow> a = last ?br"
    proof (rule flags_set_last)
      show "?br \<noteq> []" using sd(1) by simp
      show "0 + length ?br = Suc p" using p by simp
      show "\<forall>a<length h. \<not> isCurrent (h ! a)" using d(3) that(1) by simp
      show "last ?br < length h" by (rule lastlt)
      show "a < length h" by (rule that(2))
    qed
    with that(1) show ?thesis by simp
  qed
  have clr: "isCurrent (h ! a)" if "int i \<noteq> ci" "isCurrent (?h ! a)" for a
    using that by (auto dest: flags_cleared)
  show "\<not> isCurrent (?h ! a)" if "int (Suc i) \<le> ci" "a < length ?h" for a
  proof
    assume "isCurrent (?h ! a)"
    with that(1) have "isCurrent (h ! a)" by (intro clr) auto
    with d(3) [of a] that show False by simp
  qed
  show "a = b" if "a < length ?h" "b < length ?h" "isCurrent (?h ! a)" "isCurrent (?h ! b)" for a b
  proof (cases "int i = ci")
    case True
    with that cur [of a] cur [of b] show ?thesis by simp
  next
    case False
    with that clr [of a] clr [of b] d(4) [of a b] show ?thesis by simp
  qed
  show "isCurrent (?h ! last ?br) \<and> url (entry (?h ! last ?br)) = url (es ! nat ci)"
    if "int (Suc i) = ci + 1"
  proof -
    from that have eq: "int i = ci" by simp
    then have "nat ci = i" by auto
    with cur [OF eq lastlt] pu lastbr show ?thesis by simp
  qed
qed


lemma flagInv_new:
  fixes es ci i
  assumes inv: "flagInv es ci i (h, br)"
  defines "h1 \<equiv> h @ [createTreeNode (es ! i) (length br) (int i = ci)]"
  defines "h2 \<equiv> h1[last br := (h1 ! last br)\<lparr>children := children (h1 ! last br) @ [length h]\<rparr>]"
  shows "flagInv es ci (Suc i) (h2, br @ [length h])"
proof (rule flagInvI)
  note d = flagInvD [OF inv]
  note sd = storeInvD [OF d(1)]
  have par: "last br < length h"
    using sd(3) [of "length br - 1"] sd(1) by (simp add: last_conv_nth)
  have len: "length h2 = Suc (length h)" by (simp add: h2_def h1_def)
  have old: "isCurrent (h2 ! a) = isCurrent (h ! a)" if "a < length h" for a
    using that by (cases "a = last br") (simp_all add: h2_def h1_def nth_append)
  have new: "isCurrent (h2 ! length h) = (int i = ci)" "entry (h2 ! length h) = es ! i"
    using par by (simp_all add: h2_def h1_def createTreeNode_def)
  show "storeInv (h2, br @ [length h])"
    unfolding h2_def h1_def using d(1) by (rule buildStep_new_inv)
  have ch: "\<forall>a < length h. \<forall>c \<in> set (children (h ! a)). a < c \<and> c < length h"
    using sd(4) by blast
  have "mset (addrs h2 0) = mset (addrs h 0) + replicate_mset (count (mset (addrs h 0)) (last br)) (length h)"
  proof (rule addrs_push [OF ch par])
    show "h2 = (h @ [createTreeNode (es ! i) (length br) (int i = ci)])
        [last br := ((h @ [createTreeNode (es ! i) (length br) (int i = ci)]) ! last br)
          \<lparr>children := children ((h @ [createTreeNode (es ! i) (length br) (int i = ci)]) ! last br) @ [length h]\<rparr>]"
      by (simp add: h2_def h1_def)
    show "children (createTreeNode (es ! i) (length br) (int i = ci)) = []"
      by (simp add: createTreeNode_def)
    show "0 < length h" using par by (cases h) simp_all
  qed
  also have "count (mset (addrs h 0)) (last br) = 1"
    using par by (simp add: d(2))
  finally show "mset (addrs h2 0) = mset [0..<length h2]"
    by (simp add: d(2) len)
  show "\<not> isCurrent (h2 ! a)" if "int (Suc i) \<le> ci" "a < length h2" for a
  proof (cases "a < length h")
    case True
    with d(3) [of a] that old [of a] show ?thesis by simp
  next
    case False
    with that len have "a = length h" by simp
    with new(1) that show ?thesis by simp
  qed
  show "a = b" if "a < length h2" "b < length h2" "isCurrent (h2 ! a)" "isCurrent (h2 ! b)" for a b
  proof (cases "int i = ci")
    case True
    have "x = length h" if "x < length h2" "isCurrent (h2 ! x)" for x
    proof (rule ccontr)
      assume "x \<noteq> length h"
      with that len have "x < length h" by simp
      with d(3) [of x] True old [of x] that show False by simp
    qed
    from this [of a] this [of b] that show ?thesis by simp
  next
    case False
    have "x < length h \<and> isCurrent (h ! x)" if "x < length h2" "isCurrent (h2 ! x)" for x
    proof (cases "x < length h")
      case True
      with old [of x] that show ?thesis by simp
    next
      case F: False
      with that len have "x = length h" by simp
      with new(1) False that show ?thesis by simp
    qed
    from this [of a] this [of b] that d(4) [of a b] show ?thesis by simp
  qed
  show "isCurrent (h2 ! last (br @ [length h])) \<and> url (entry (h2 ! last (br @ [length h]))) = url (es ! nat ci)"
    if "int (Suc i) = ci + 1"
  proof -
    from that have eq: "int i = ci" by simp
    then have "nat ci = i" by auto
    with new eq show ?thesis by simp
  qed
qed

lemma flagInv_step:
  assumes "flagInv es ci i s"
  shows "flagInv es ci (Suc i) (buildStep ci i (es ! i) s)"
proof -
  obtain h br where s: "s = (h, br)" by (cases s)
  with assms have inv: "flagInv es ci i (h, br)" by simp
  show ?thesis
  proof (cases "findIndex (\<lambda>a. url (entry (h ! a)) = url (es ! i)) br")
    case (Some p)
    have step: "buildStep ci i (es ! i) s
        = (updateCurrentFlags h (take (p + 1) br) 0 p (int i = ci), take (p + 1) br)"
      using Some s by (simp add: buildStep_def Let_def)
    show ?thesis unfolding step using inv Some by (rule flagInv_found)
  next
    case None
    have step: "buildStep ci i (es ! i) s
       = ((h @ [createTreeNode (es ! i) (length br) (int i = ci)])
            [last br := ((h @ [createTreeNode (es ! i) (length br) (int i = ci)]) ! last br)
               \<lparr>children := children ((h @ [createTreeNode (es ! i) (length br) (int i = ci)]) ! last br) @ [length h]\<rparr>],
          br @ [length h])"
      using None s by (simp add: buildStep_def Let_def)
    show ?thesis unfolding step using inv by (rule flagInv_new)
  qed
qed

lemma flagInv_loop:
  assumes "flagInv es ci i s" "i \<le> length es"
  shows "flagInv es ci (length es) (buildLoop es ci i s)"
  using assms
proof (induction es ci i s rule: buildLoop.induct)
  case (1 es ci i s)
  show ?case
  proof (cases "i < length es")
    case True
    then have "flagInv es ci (length es) (buildLoop es ci (Suc i) (buildStep ci i (es ! i) s))"
      using 1 by (intro "1.IH" flagInv_step) simp_all
    with True show ?thesis by (subst buildLoop.simps) simp
  next
    case False
    with "1.prems" have "i = length es" by simp
    with "1.prems"(1) show ?thesis by (subst buildLoop.simps) simp
  qed
qed

lemma flagInv_init:
  "flagInv es ci 1 ([createTreeNode (es ! 0) 0 (ci = 0)], [0])"
proof (rule flagInvI)
  show "storeInv ([createTreeNode (es ! 0) 0 (ci = 0)], [0])" by (rule storeInv_init)
  have "addrs [createTreeNode (es ! 0) 0 (ci = 0)] 0 = [0]"
    by (subst addrs.simps) (simp add: createTreeNode_def)
  then show "mset (addrs [createTreeNode (es ! 0) 0 (ci = 0)] 0)
      = mset [0..<length [createTreeNode (es ! 0) 0 (ci = 0)]]" by simp
qed (auto simp: createTreeNode_def)

lemma filter_upt_at_most_one:
  assumes "\<And>a b. a < n \<Longrightarrow> b < n \<Longrightarrow> P a \<Longrightarrow> P b \<Longrightarrow> a = b"
  shows "length (filter P [0..<n]) \<le> 1"
  using assms
proof (induction n)
  case 0
  then show ?case by simp
next
  case (Suc n)
  show ?case
  proof (cases "P n")
    case True
    have "filter P [0..<n] = []"
    proof -
      have "\<not> P a" if "a < n" for a using Suc.prems [of a n] that True by auto
      then show ?thesis by (simp add: filter_empty_conv)
    qed
    with True show ?thesis by simp
  next
    case False
    with Suc.IH Suc.prems show ?thesis by simp
  qed
qed

lemma length_filter_perm:
  "mset xs = mset ys \<Longrightarrow> length (filter P xs) = length (filter P ys)"
  by (metis mset_filter size_mset)

text \<open>After any rebuild at most one node carries the current flag.\<close>

lemma buildTree_current_at_most_one: "length (currentNodes (buildTree es ci)) \<le> 1"
proof -
  obtain h br where l: "buildLoop es ci 1 ([createTreeNode (es ! 0) 0 (ci = 0)], [0]) = (h, br)"
    by (cases "buildLoop es ci 1 ([createTreeNode (es ! 0) 0 (ci = 0)], [0])")
  show ?thesis
  proof (cases "1 \<le> length es")
    case True
    have inv: "flagInv es ci (length es) (h, br)"
      using flagInv_loop [OF flagInv_init True, of ci] l by simp
    note d = flagInvD [OF inv]
    have "length (currentNodes (readTree h 0)) = length (filter (\<lambda>x. isCurrent (h ! x)) (addrs h 0))"
      by (simp add: currentNodes_readTree)
    also have "\<dots> = length (filter (\<lambda>x. isCurrent (h ! x)) [0..<length h])"
      using d(2) by (rule length_filter_perm)
    also have "\<dots> \<le> 1"
      by (rule filter_upt_at_most_one) (use d(4) in blast)
    finally show ?thesis unfolding buildTree_def Let_def l by simp
  next
    case False
    then have "buildLoop es ci 1 ([createTreeNode (es ! 0) 0 (ci = 0)], [0])
        = ([createTreeNode (es ! 0) 0 (ci = 0)], [0])"
      by (subst buildLoop.simps) simp
    then show ?thesis
      unfolding buildTree_def Let_def
      by (simp add: currentNodes_readTree addrs.simps [of _ 0] createTreeNode_def)
  qed
qed

text \<open>
  When \<^verbatim>\<open>currentIndex\<close> is the last position of the log, as it is after every new
  navigation, exactly one node carries the flag, and it has the URL of the current entry.
\<close>

lemma buildTree_current_at_last_index:
  assumes "es \<noteq> []" "ci = int (length es) - 1"
  shows "\<exists>n. currentNodes (buildTree es ci) = [n] \<and> nIsCurrent n \<and> url (nEntry n) = url (last es)"
proof -
  obtain h br where l: "buildLoop es ci 1 ([createTreeNode (es ! 0) 0 (ci = 0)], [0]) = (h, br)"
    by (cases "buildLoop es ci 1 ([createTreeNode (es ! 0) 0 (ci = 0)], [0])")
  from assms have le: "1 \<le> length es" by (cases es) simp_all
  have inv: "flagInv es ci (length es) (h, br)"
    using flagInv_loop [OF flagInv_init le, of ci] l by simp
  note d = flagInvD [OF inv]
  note sd = storeInvD [OF d(1)]
  let ?b = "last br"
  have b: "?b < length h"
    using sd(3) [of "length br - 1"] sd(1) by (simp add: last_conv_nth)
  from assms have idx: "int (length es) = ci + 1" "nat ci = length es - 1" by simp_all
  from d(5) [OF idx(1)] idx(2) assms(1)
  have cur: "isCurrent (h ! ?b)" and u: "url (entry (h ! ?b)) = url (last es)"
    by (simp_all add: last_conv_nth)
  let ?P = "\<lambda>x. isCurrent (h ! x)"
  have sub: "set (addrs h 0) = {0..<length h}"
    using d(2) by (metis mset_eq_setD set_upt)
  have all: "\<forall>x \<in> set (filter ?P (addrs h 0)). x = ?b"
    using sub d(4) [OF _ b _ cur] by auto
  have "?b \<in> set (filter ?P (addrs h 0))" using sub b cur by simp
  then have pos: "0 < length (filter ?P (addrs h 0))" by (rule length_pos_if_in_set)
  have "length (filter ?P (addrs h 0)) = length (filter ?P [0..<length h])"
    using d(2) by (rule length_filter_perm)
  also have "\<dots> \<le> 1"
    by (rule filter_upt_at_most_one) (use d(4) in blast)
  finally have "length (filter ?P (addrs h 0)) \<le> 1" .
  with pos have "length (filter ?P (addrs h 0)) = 1" by linarith
  then obtain x where x: "filter ?P (addrs h 0) = [x]"
    by (cases "filter ?P (addrs h 0)") auto
  with all have "filter ?P (addrs h 0) = [?b]" by simp
  then have "currentNodes (readTree h 0) = [readTree h ?b]"
    by (simp add: currentNodes_readTree)
  with cur u show ?thesis unfolding buildTree_def Let_def l by simp
qed

text \<open>
  C1 says that after a rebuild of a log with a valid index exactly one node of the tree
  carries the current flag, the node of the entry at \<^verbatim>\<open>currentIndex\<close>. Evaluated on
  the code: a tab visits \<open>a\<close>, \<open>b\<close>, \<open>c\<close> and follows a link to \<open>a\<close> again, then
  goes back three times. The log is \<open>[a, b, c, a]\<close> with the valid index \<open>0\<close>, and no
  node of the rebuilt tree carries the current flag: the root is flagged first, and the
  step for the last entry finds the root in the branch and clears its flag.
\<close>

theorem C1_current_flag_lost:
  "logOf (applyUpdates sampleUrls emptyTracker
      [visit ''http://a/'', visit ''http://b/'', visit ''http://c/'', visit ''http://a/'',
       visit ''http://c/'', visit ''http://b/'', visit ''http://a/'']) 1
     = Some ([''http://a/'', ''http://b/'', ''http://c/'', ''http://a/''], 0)
   \<and> currentUrls (applyUpdates sampleUrls emptyTracker
      [visit ''http://a/'', visit ''http://b/'', visit ''http://c/'', visit ''http://a/'',
       visit ''http://c/'', visit ''http://b/'', visit ''http://a/'']) 1 = Some []"
  by code_simp

end
